theory Spec2Isabelle
  imports Main "HOL-Library.Word"
begin

unbundle bit_operations_syntax

section \<open>Machine types and the host interface\<close>

text \<open>
  The contract \<^verbatim>\<open>MultSigVault\<close> (contracts/src/vault/MultSigVault.ts) is AssemblyScript:
  its integers are fixed-width and unsigned. Storage keys and values of the host are
  32-byte strings. A value is read as the 256-bit big-endian number it encodes
  (\<^verbatim>\<open>u256.fromUint8ArrayBE\<close>, \<^verbatim>\<open>toUint8Array(true)\<close>); an \<^verbatim>\<open>Address\<close> is 32 bytes as
  well and is stored unchanged (\<^verbatim>\<open>writeAddress\<close>, \<^verbatim>\<open>readAddress\<close>), so it is modelled
  by the same 256-bit word; \<^verbatim>\<open>isZero\<close> is equality with 0.
\<close>

type_synonym u8 = "8 word"
type_synonym u16 = "16 word"
type_synonym u32 = "32 word"
type_synonym u64 = "64 word"
type_synonym u256 = "256 word"
type_synonym address = "256 word"
type_synonym key = "u8 list"
type_synonym storage = "key \<Rightarrow> u256"

text \<open>
  \<^verbatim>\<open>throw new Revert(msg)\<close> aborts the call. The checked arithmetic of the runtime
  (\<^verbatim>\<open>SafeMath.add\<close>, \<^verbatim>\<open>SafeMath.sub\<close>), a failing call to the asset contract and a
  read past the end of the calldata abort it too; they get constructors of their own.
\<close>

datatype error =
    Revert string
  | SafeMathOverflow
  | SafeMathUnderflow
  | ExternalCallFailed
  | CalldataOutOfBounds

text \<open>
  The two calls the contract makes to the asset contract, through \<^verbatim>\<open>TransferHelper\<close>:
  \<^verbatim>\<open>transferFrom(token, from, to, amount)\<close> and \<^verbatim>\<open>transfer(token, to, amount)\<close>.
  The asset contract is outside the repository. It is a parameter of the model: a
  function that receives the call and the vault contract's storage as it is at the
  moment of the call, and either fails (\<open>None\<close>: the whole transaction reverts) or
  returns, with the storage as it is after the call (a callee that calls back into the
  vault may have changed it).
\<close>

datatype ext_call =
    TransferFrom address address address u256
  | Transfer address address u256

type_synonym external = "ext_call \<Rightarrow> storage \<Rightarrow> storage option"

text \<open>An asset contract that never calls back: it accepts or rejects, and that is all.\<close>

definition inert :: "(ext_call \<Rightarrow> bool) \<Rightarrow> external" where
  "inert ok c st = (if ok c then Some st else None)"

text \<open>\<^verbatim>\<open>Blockchain.tx.sender\<close> and \<^verbatim>\<open>Blockchain.contractAddress\<close>.\<close>

record env =
  sender :: address
  contractAddress :: address

definition MAX_OWNERS :: u8 where
  "MAX_OWNERS = 10"

definition ONE :: u256 where
  "ONE = 1"

definition ZERO :: u256 where
  "ZERO = 0"

text \<open>
  \<^verbatim>\<open>SafeMath.add\<close> and \<^verbatim>\<open>SafeMath.sub\<close> of the runtime: the 256-bit operation, reverting
  when the sum wrapped around or the subtrahend is the larger one.
\<close>

definition SafeMath_add :: "u256 \<Rightarrow> u256 \<Rightarrow> error + u256" where
  "SafeMath_add a b = (let c = a + b in if c < a then Inl SafeMathOverflow else Inr c)"

definition SafeMath_sub :: "u256 \<Rightarrow> u256 \<Rightarrow> error + u256" where
  "SafeMath_sub a b = (if a < b then Inl SafeMathUnderflow else Inr (a - b))"

section \<open>Storage pointers\<close>

text \<open>
  Every field initialiser takes \<^verbatim>\<open>Blockchain.nextPointer\<close>, which hands out successive
  16-bit numbers, in declaration order.
\<close>

definition pVaultCount :: u16 where "pVaultCount = 1"
definition pThreshold :: u16 where "pThreshold = 2"
definition pOwnerCount :: u16 where "pOwnerCount = 3"
definition pToken :: u16 where "pToken = 4"
definition pBalance :: u16 where "pBalance = 5"
definition pTotalProposals :: u16 where "pTotalProposals = 6"
definition pHasProposal :: u16 where "pHasProposal = 7"
definition pOwner :: u16 where "pOwner = 8"
definition pPropTo :: u16 where "pPropTo = 9"
definition pPropAmount :: u16 where "pPropAmount = 10"
definition pPropApprovals :: u16 where "pPropApprovals = 11"
definition pApproval :: u16 where "pApproval = 12"

section \<open>Storage key helpers\<close>

text \<open>\<^verbatim>\<open>vaultId.lo1\<close>: the low 64 bits of a 256-bit number.\<close>

definition lo1 :: "u256 \<Rightarrow> u64" where
  "lo1 v = ucast v"

text \<open>
  \<^verbatim>\<open>fieldKey(ptr, vaultId)\<close>: bytes 0 and 1 hold the pointer, bytes 28 to 31 the low 32
  bits of the vault id, big-endian; the rest is zero.
\<close>

definition fieldKey :: "u16 \<Rightarrow> u256 \<Rightarrow> key" where
  "fieldKey ptr vaultId =
     (let id = (ucast (lo1 vaultId) :: u32) in
        [ucast ((drop_bit 8 ptr) AND 0xFF), ucast (ptr AND 0xFF)]
        @ replicate 26 0
        @ [ucast ((drop_bit 24 id) AND 0xFF), ucast ((drop_bit 16 id) AND 0xFF),
           ucast ((drop_bit 8 id) AND 0xFF), ucast (id AND 0xFF)])"

text \<open>
  \<^verbatim>\<open>idxKey(ptr, vaultId, idx)\<close>: as above, with the id in bytes 27 to 30 and the index
  in byte 31.
\<close>

definition idxKey :: "u16 \<Rightarrow> u256 \<Rightarrow> u8 \<Rightarrow> key" where
  "idxKey ptr vaultId idx =
     (let id = (ucast (lo1 vaultId) :: u32) in
        [ucast ((drop_bit 8 ptr) AND 0xFF), ucast (ptr AND 0xFF)]
        @ replicate 25 0
        @ [ucast ((drop_bit 24 id) AND 0xFF), ucast ((drop_bit 16 id) AND 0xFF),
           ucast ((drop_bit 8 id) AND 0xFF), ucast (id AND 0xFF), idx])"

text \<open>
  The key of \<^verbatim>\<open>_vaultCount\<close>, a \<^verbatim>\<open>StoredU256(pointer, EMPTY_SUB)\<close>: the runtime's
  \<^verbatim>\<open>encodePointer\<close> puts the pointer in front of the 30 zero bytes of \<^verbatim>\<open>EMPTY_SUB\<close>
  (the format the comment above \<^verbatim>\<open>fieldKey\<close> refers to).
\<close>

definition vaultCountKey :: key where
  "vaultCountKey =
     [ucast ((drop_bit 8 pVaultCount) AND 0xFF), ucast (pVaultCount AND 0xFF)] @ replicate 30 0"

section \<open>Raw storage access\<close>

definition setStorageAt :: "storage \<Rightarrow> key \<Rightarrow> u256 \<Rightarrow> storage" where
  "setStorageAt s k v = s(k := v)"

definition getStorageAt :: "storage \<Rightarrow> key \<Rightarrow> u256" where
  "getStorageAt s k = s k"

definition su :: "storage \<Rightarrow> key \<Rightarrow> u256 \<Rightarrow> storage" where
  "su s k val = setStorageAt s k val"

definition lu :: "storage \<Rightarrow> key \<Rightarrow> u256" where
  "lu s k = getStorageAt s k"

definition sa :: "storage \<Rightarrow> key \<Rightarrow> address \<Rightarrow> storage" where
  "sa s k addr = setStorageAt s k addr"

definition la :: "storage \<Rightarrow> key \<Rightarrow> address" where
  "la s k = getStorageAt s k"

text \<open>\<^verbatim>\<open>_vaultCount.value\<close>.\<close>

definition vaultCount :: "storage \<Rightarrow> u256" where
  "vaultCount s = lu s vaultCountKey"

section \<open>Owner helpers\<close>

definition getOwnerCount :: "storage \<Rightarrow> u256 \<Rightarrow> u8" where
  "getOwnerCount s vaultId = ucast (lo1 (lu s (fieldKey pOwnerCount vaultId)) AND 0xFF)"

text \<open>
  The scan of \<^verbatim>\<open>requireOwnerIdx\<close>: \<^verbatim>\<open>for (let i: u8 = 0; i < count; i++)\<close>, returning
  the first index whose slot holds the sender.
\<close>

function requireOwnerIdx_loop :: "storage \<Rightarrow> address \<Rightarrow> u256 \<Rightarrow> u8 \<Rightarrow> u8 \<Rightarrow> error + u8" where
  "requireOwnerIdx_loop s sndr vaultId count i =
     (if i < count then
        (if la s (idxKey pOwner vaultId i) = sndr then Inr i
         else requireOwnerIdx_loop s sndr vaultId count (i + 1))
      else Inl (Revert ''not an owner''))"
  by pat_completeness auto
termination
proof (relation "measure (\<lambda>(s, sndr, vaultId, count, i). unat count - unat i)")
  fix s :: storage and sndr :: address and vaultId :: u256 and count i :: u8
  assume "i < count"
  then have "unat i < unat count"
    by (simp add: word_less_nat_alt)
  moreover have "unat count < 256"
    using unsigned_less [of count, where 'a = nat] by simp
  ultimately have "unat (i + 1) = Suc (unat i)"
    by (simp add: unat_word_ariths)
  with \<open>unat i < unat count\<close>
  show "((s, sndr, vaultId, count, i + 1), (s, sndr, vaultId, count, i))
          \<in> measure (\<lambda>(s, sndr, vaultId, count, i). unat count - unat i)"
    by simp
qed simp


definition requireOwnerIdx :: "env \<Rightarrow> storage \<Rightarrow> u256 \<Rightarrow> error + u8" where
  "requireOwnerIdx c s vaultId =
     requireOwnerIdx_loop s (sender c) vaultId (getOwnerCount s vaultId) 0"

definition requireVault :: "storage \<Rightarrow> u256 \<Rightarrow> error + unit" where
  "requireVault s vaultId =
     (if vaultId \<ge> vaultCount s then Inl (Revert ''vault not found'') else Inr ())"

section \<open>Proposal cleanup\<close>

text \<open>The loop of \<^verbatim>\<open>clearProposal\<close> over the approval flags of the owner slots.\<close>

function clearProposal_loop :: "storage \<Rightarrow> u256 \<Rightarrow> u8 \<Rightarrow> u8 \<Rightarrow> storage" where
  "clearProposal_loop s vaultId count i =
     (if i < count then
        clearProposal_loop (su s (idxKey pApproval vaultId i) ZERO) vaultId count (i + 1)
      else s)"
  by pat_completeness auto
termination
proof (relation "measure (\<lambda>(s, vaultId, count, i). unat count - unat i)")
  fix s :: storage and vaultId :: u256 and count i :: u8
  assume "i < count"
  then have "unat i < unat count"
    by (simp add: word_less_nat_alt)
  moreover have "unat count < 256"
    using unsigned_less [of count, where 'a = nat] by simp
  ultimately have "unat (i + 1) = Suc (unat i)"
    by (simp add: unat_word_ariths)
  with \<open>unat i < unat count\<close>
  show "((su s (idxKey pApproval vaultId i) ZERO, vaultId, count, i + 1), (s, vaultId, count, i))
          \<in> measure (\<lambda>(s, vaultId, count, i). unat count - unat i)"
    by simp
qed simp

definition clearProposal :: "storage \<Rightarrow> u256 \<Rightarrow> storage" where
  "clearProposal s vaultId =
     (let s1 = setStorageAt s (fieldKey pPropTo vaultId) 0;
          s2 = su s1 (fieldKey pPropAmount vaultId) ZERO;
          s3 = su s2 (fieldKey pPropApprovals vaultId) ZERO;
          count = getOwnerCount s3 vaultId;
          s4 = clearProposal_loop s3 vaultId count 0
      in su s4 (fieldKey pHasProposal vaultId) ZERO)"

section \<open>Public methods\<close>

text \<open>
  The calldata is modelled decoded: each method takes the values it reads, in the order
  it reads them. \<^verbatim>\<open>createVault\<close> reads its owners one by one inside its loop, so the
  owners are a list that the loop consumes; reading past its end aborts, as the
  runtime's reader does.

  A method returns \<open>Inl\<close> of the error when it aborts, and \<open>Inr\<close> of its return value
  and the new storage otherwise.
\<close>

text \<open>The inner loop of \<^verbatim>\<open>createVault\<close>: is the owner among those read so far?\<close>

fun isDuplicate :: "address list \<Rightarrow> address \<Rightarrow> bool" where
  "isDuplicate [] owner = False"
| "isDuplicate (x # xs) owner = (if x = owner then True else isDuplicate xs owner)"

function createVault_loop ::
  "storage \<Rightarrow> u256 \<Rightarrow> u8 \<Rightarrow> address list \<Rightarrow> address list \<Rightarrow> u8 \<Rightarrow> error + storage" where
  "createVault_loop s vaultId ownerCount calldata owners i =
     (if i < ownerCount then
        (case calldata of
           [] \<Rightarrow> Inl CalldataOutOfBounds
         | owner # rest \<Rightarrow>
             if owner = 0 then Inl (Revert ''zero address'')
             else if isDuplicate owners owner then Inl (Revert ''duplicate owner'')
             else createVault_loop (sa s (idxKey pOwner vaultId i) owner) vaultId ownerCount
                    rest (owners @ [owner]) (i + 1))
      else Inr s)"
  by pat_completeness auto
termination
proof (relation "measure (\<lambda>(s, vaultId, ownerCount, calldata, owners, i). unat ownerCount - unat i)")
  fix s :: storage and vaultId :: u256 and ownerCount i :: u8
    and calldata owners rest :: "address list" and owner :: address
  assume "i < ownerCount"
  then have "unat i < unat ownerCount"
    by (simp add: word_less_nat_alt)
  moreover have "unat ownerCount < 256"
    using unsigned_less [of ownerCount, where 'a = nat] by simp
  ultimately have "unat (i + 1) = Suc (unat i)"
    by (simp add: unat_word_ariths)
  with \<open>unat i < unat ownerCount\<close>
  show "((sa s (idxKey pOwner vaultId i) owner, vaultId, ownerCount, rest, owners @ [owner], i + 1),
         (s, vaultId, ownerCount, calldata, owners, i))
          \<in> measure (\<lambda>(s, vaultId, ownerCount, calldata, owners, i). unat ownerCount - unat i)"
    by simp
qed simp

definition createVault ::
  "address \<Rightarrow> u8 \<Rightarrow> address list \<Rightarrow> u8 \<Rightarrow> storage \<Rightarrow> error + (u256 \<times> storage)" where
  "createVault token ownerCount calldata threshold s =
     (if ownerCount < 2 then Inl (Revert ''min 2 owners'')
      else if ownerCount > MAX_OWNERS then Inl (Revert ''max 10 owners'')
      else
        let vaultId = vaultCount s in
        case createVault_loop s vaultId ownerCount calldata [] 0 of
          Inl e \<Rightarrow> Inl e
        | Inr s1 \<Rightarrow>
            if threshold < 2 then Inl (Revert ''min threshold 2'')
            else if threshold > ownerCount then Inl (Revert ''threshold > owners'')
            else
              let s2 = su s1 (fieldKey pThreshold vaultId) (ucast (ucast threshold :: u32));
                  s3 = su s2 (fieldKey pOwnerCount vaultId) (ucast (ucast ownerCount :: u32));
                  s4 = sa s3 (fieldKey pToken vaultId) token
              in case SafeMath_add vaultId ONE of
                   Inl e \<Rightarrow> Inl e
                 | Inr n \<Rightarrow> Inr (vaultId, su s4 vaultCountKey n))"

definition deposit ::
  "external \<Rightarrow> env \<Rightarrow> u256 \<Rightarrow> u256 \<Rightarrow> storage \<Rightarrow> error + (bool \<times> storage)" where
  "deposit X c vaultId amount s =
     (case requireVault s vaultId of
        Inl e \<Rightarrow> Inl e
      | Inr _ \<Rightarrow>
          if amount = ZERO then Inl (Revert ''amount is zero'')
          else
            let token = la s (fieldKey pToken vaultId) in
            case X (TransferFrom token (sender c) (contractAddress c) amount) s of
              None \<Rightarrow> Inl ExternalCallFailed
            | Some s1 \<Rightarrow>
                let balKey = fieldKey pBalance vaultId;
                    bal = lu s1 balKey
                in case SafeMath_add bal amount of
                     Inl e \<Rightarrow> Inl e
                   | Inr b \<Rightarrow> Inr (True, su s1 balKey b))"

definition propose ::
  "env \<Rightarrow> u256 \<Rightarrow> address \<Rightarrow> u256 \<Rightarrow> storage \<Rightarrow> error + (bool \<times> storage)" where
  "propose c vaultId to amount s =
     (case requireVault s vaultId of
        Inl e \<Rightarrow> Inl e
      | Inr _ \<Rightarrow>
          case requireOwnerIdx c s vaultId of
            Inl e \<Rightarrow> Inl e
          | Inr senderIdx \<Rightarrow>
              if amount = ZERO then Inl (Revert ''amount is zero'')
              else if to = 0 then Inl (Revert ''zero recipient'')
              else
                let bal = lu s (fieldKey pBalance vaultId) in
                if amount > bal then Inl (Revert ''insufficient balance'')
                else
                  let hasPropKey = fieldKey pHasProposal vaultId;
                      hasProp = lu s hasPropKey;
                      s1 = (if hasProp \<noteq> ZERO then clearProposal s vaultId else s);
                      s2 = sa s1 (fieldKey pPropTo vaultId) to;
                      s3 = su s2 (fieldKey pPropAmount vaultId) amount;
                      s4 = su s3 (fieldKey pPropApprovals vaultId) ONE;
                      s5 = su s4 (idxKey pApproval vaultId senderIdx) ONE;
                      s6 = su s5 hasPropKey ONE;
                      totalKey = fieldKey pTotalProposals vaultId;
                      total = lu s6 totalKey
                  in case SafeMath_add total ONE of
                       Inl e \<Rightarrow> Inl e
                     | Inr t \<Rightarrow> Inr (True, su s6 totalKey t))"

definition approve :: "env \<Rightarrow> u256 \<Rightarrow> storage \<Rightarrow> error + (bool \<times> storage)" where
  "approve c vaultId s =
     (case requireVault s vaultId of
        Inl e \<Rightarrow> Inl e
      | Inr _ \<Rightarrow>
          case requireOwnerIdx c s vaultId of
            Inl e \<Rightarrow> Inl e
          | Inr senderIdx \<Rightarrow>
              let hasProp = lu s (fieldKey pHasProposal vaultId) in
              if hasProp = ZERO then Inl (Revert ''no active proposal'')
              else
                let apKey = idxKey pApproval vaultId senderIdx;
                    already = lu s apKey
                in if already \<noteq> ZERO then Inl (Revert ''already approved'')
                   else
                     let s1 = su s apKey ONE;
                         curKey = fieldKey pPropApprovals vaultId;
                         cur = lu s1 curKey
                     in case SafeMath_add cur ONE of
                          Inl e \<Rightarrow> Inl e
                        | Inr n \<Rightarrow> Inr (True, su s1 curKey n))"

definition executeProposal ::
  "external \<Rightarrow> env \<Rightarrow> u256 \<Rightarrow> storage \<Rightarrow> error + (bool \<times> storage)" where
  "executeProposal X c vaultId s =
     (case requireVault s vaultId of
        Inl e \<Rightarrow> Inl e
      | Inr _ \<Rightarrow>
          let hasProp = lu s (fieldKey pHasProposal vaultId) in
          if hasProp = ZERO then Inl (Revert ''no active proposal'')
          else
            let approvals = lu s (fieldKey pPropApprovals vaultId);
                threshold = lu s (fieldKey pThreshold vaultId)
            in if approvals < threshold then Inl (Revert ''threshold not met'')
               else
                 let amount = lu s (fieldKey pPropAmount vaultId);
                     to = la s (fieldKey pPropTo vaultId);
                     token = la s (fieldKey pToken vaultId);
                     balKey = fieldKey pBalance vaultId;
                     bal = lu s balKey
                 in case SafeMath_sub bal amount of
                      Inl e \<Rightarrow> Inl e
                    | Inr b \<Rightarrow>
                        let s1 = su s balKey b;
                            s2 = clearProposal s1 vaultId
                        in case X (Transfer token to amount) s2 of
                             None \<Rightarrow> Inl ExternalCallFailed
                           | Some s3 \<Rightarrow> Inr (True, s3))"

section \<open>View methods\<close>

definition getVaultCount :: "storage \<Rightarrow> u256" where
  "getVaultCount s = vaultCount s"




definition getProposal :: "storage \<Rightarrow> u256 \<Rightarrow> error + (address \<times> u256 \<times> u256)" where
  "getProposal s vaultId =
     (case requireVault s vaultId of
        Inl e \<Rightarrow> Inl e
      | Inr _ \<Rightarrow>
          let hasProp = lu s (fieldKey pHasProposal vaultId) in
          if hasProp = ZERO then Inl (Revert ''no active proposal'')
          else
            let to = la s (fieldKey pPropTo vaultId);
                amount = lu s (fieldKey pPropAmount vaultId);
                approvals = lu s (fieldKey pPropApprovals vaultId)
            in Inr (to, amount, approvals))"

section \<open>Transactions and reachable states\<close>

text \<open>
  The host runs a call to completion or rolls it back: the storage after a call is the
  one the method returns, or the storage before the call when the method aborted.
\<close>

definition commit :: "storage \<Rightarrow> error + ('r \<times> storage) \<Rightarrow> storage" where
  "commit s r = (case r of Inl e \<Rightarrow> s | Inr (x, s') \<Rightarrow> s')"

text \<open>Storage at deployment: every slot reads as zero.\<close>

definition deployed :: storage where
  "deployed = (\<lambda>k. 0)"

text \<open>
  The states the contract can be in: those that successful calls of the five mutating
  methods produce from the deployment state, by any senders, with any arguments, against
  asset contracts that accept or reject a transfer and do not call back.
\<close>

inductive reachable :: "storage \<Rightarrow> bool" where
  r_deployed: "reachable deployed"
| r_createVault:
    "reachable s \<Longrightarrow> createVault token ownerCount calldata threshold s = Inr (vid, s')
      \<Longrightarrow> reachable s'"
| r_deposit:
    "reachable s \<Longrightarrow> deposit (inert ok) c vaultId amount s = Inr (r, s') \<Longrightarrow> reachable s'"
| r_propose:
    "reachable s \<Longrightarrow> propose c vaultId to amount s = Inr (r, s') \<Longrightarrow> reachable s'"
| r_approve:
    "reachable s \<Longrightarrow> approve c vaultId s = Inr (r, s') \<Longrightarrow> reachable s'"
| r_executeProposal:
    "reachable s \<Longrightarrow> executeProposal (inert ok) c vaultId s = Inr (r, s') \<Longrightarrow> reachable s'"

section \<open>What the claims speak of: the fields of a vault\<close>

text \<open>
  The fields of a vault, as the methods read them from storage. An approval flag counts
  as set when it is non-zero (\<^verbatim>\<open>already != ZERO\<close>), a proposal as active when
  \<^verbatim>\<open>hasProp != ZERO\<close>.
\<close>

definition threshold_of :: "storage \<Rightarrow> u256 \<Rightarrow> u256" where
  "threshold_of s vaultId = lu s (fieldKey pThreshold vaultId)"

definition balance_of :: "storage \<Rightarrow> u256 \<Rightarrow> u256" where
  "balance_of s vaultId = lu s (fieldKey pBalance vaultId)"

definition totalProposals_of :: "storage \<Rightarrow> u256 \<Rightarrow> u256" where
  "totalProposals_of s vaultId = lu s (fieldKey pTotalProposals vaultId)"

definition hasProposal :: "storage \<Rightarrow> u256 \<Rightarrow> bool" where
  "hasProposal s vaultId = (lu s (fieldKey pHasProposal vaultId) \<noteq> ZERO)"

definition propTo_of :: "storage \<Rightarrow> u256 \<Rightarrow> address" where
  "propTo_of s vaultId = la s (fieldKey pPropTo vaultId)"

definition propAmount_of :: "storage \<Rightarrow> u256 \<Rightarrow> u256" where
  "propAmount_of s vaultId = lu s (fieldKey pPropAmount vaultId)"

definition approvals_of :: "storage \<Rightarrow> u256 \<Rightarrow> u256" where
  "approvals_of s vaultId = lu s (fieldKey pPropApprovals vaultId)"

definition approved :: "storage \<Rightarrow> u256 \<Rightarrow> u8 \<Rightarrow> bool" where
  "approved s vaultId i = (lu s (idxKey pApproval vaultId i) \<noteq> ZERO)"

definition owner_at :: "storage \<Rightarrow> u256 \<Rightarrow> u8 \<Rightarrow> address" where
  "owner_at s vaultId i = la s (idxKey pOwner vaultId i)"


section \<open>Auxiliary definitions\<close>

text \<open>The only part of a vault id that reaches a storage key: its low 32 bits.\<close>

definition lo32 :: "u256 \<Rightarrow> u32" where
  "lo32 v = ucast (lo1 v)"

text \<open>
  The pointers the contract passes to \<^verbatim>\<open>fieldKey\<close>, and those it passes to \<^verbatim>\<open>idxKey\<close>.
\<close>

definition fieldPointers :: "u16 set" where
  "fieldPointers = {pThreshold, pOwnerCount, pToken, pBalance, pTotalProposals, pHasProposal,
     pPropTo, pPropAmount, pPropApprovals}"

definition indexPointers :: "u16 set" where
  "indexPointers = {pOwner, pApproval}"

text \<open>
  The storage \<^verbatim>\<open>executeProposal\<close> has written when it reaches the transfer: the balance
  debited, then \<^verbatim>\<open>clearProposal\<close>.
\<close>

definition settled :: "storage \<Rightarrow> u256 \<Rightarrow> storage" where
  "settled s v =
     clearProposal (su s (fieldKey pBalance v) (balance_of s v - propAmount_of s v)) v"

text \<open>
  The storage a successful \<^verbatim>\<open>propose\<close> by the owner in slot \<open>idx\<close> leaves, read key by
  key (lemma \<open>propose_writes\<close> shows it is what the writes of the method produce).
\<close>

definition proposed :: "storage \<Rightarrow> u256 \<Rightarrow> u8 \<Rightarrow> address \<Rightarrow> u256 \<Rightarrow> storage" where
  "proposed s v idx to amt =
     (\<lambda>k. if k = fieldKey pTotalProposals v then totalProposals_of s v + 1
          else if k = fieldKey pHasProposal v then 1
          else if k = idxKey pApproval v idx then 1
          else if k = fieldKey pPropApprovals v then 1
          else if k = fieldKey pPropAmount v then amt
          else if k = fieldKey pPropTo v then to
          else if hasProposal s v \<and> (\<exists>j. j < getOwnerCount s v \<and> k = idxKey pApproval v j) then 0
          else s k)"

text \<open>
  Invariant of every reachable state, per vault: an active proposal asks for no more than
  the balance, and has no more approvals than flags set.
\<close>

definition vault_ok :: "storage \<Rightarrow> u256 \<Rightarrow> bool" where
  "vault_ok s w \<longleftrightarrow>
     (hasProposal s w \<longrightarrow>
        propAmount_of s w \<le> balance_of s w
        \<and> unat (approvals_of s w) \<le> card {i. approved s w i})"

subsection \<open>The scenario of the specification\<close>

text \<open>
  A 2-of-3 vault of owners A, B, C for an asset T: created, funded with 1000, a proposal
  of 200 to D by A, approved by B. The states are those the calls produce.
\<close>

definition alice :: address where "alice = 0xA11CE"
definition bob :: address where "bob = 0xB0B"
definition carol :: address where "carol = 0xCA401"
definition dave :: address where "dave = 0xDA7E"
definition asset :: address where "asset = 0xA55E7"

definition as_sender :: "address \<Rightarrow> env" where
  "as_sender a = \<lparr> sender = a, contractAddress = 0xC0DE \<rparr>"

definition accepting :: external where
  "accepting = inert (\<lambda>c. True)"

definition st1 :: storage where
  "st1 = commit deployed (createVault asset 3 [alice, bob, carol] 2 deployed)"

definition st2 :: storage where
  "st2 = commit st1 (deposit accepting (as_sender alice) 0 1000 st1)"

definition st3 :: storage where
  "st3 = commit st2 (propose (as_sender alice) 0 dave 200 st2)"

definition st4 :: storage where
  "st4 = commit st3 (approve (as_sender bob) 0 st3)"

text \<open>The asset of a vault, as the methods read it.\<close>

definition token_of :: "storage \<Rightarrow> u256 \<Rightarrow> address" where
  "token_of s vaultId = la s (fieldKey pToken vaultId)"

text \<open>
  A storage written by hand, which no call sequence produces: one vault, an active
  proposal of 5 against a balance of 3.
\<close>

definition underwater :: storage where
  "underwater =
     su (su (su (su deployed vaultCountKey 1) (fieldKey pHasProposal 0) 1)
       (fieldKey pPropAmount 0) 5) (fieldKey pBalance 0) 3"

text \<open>The scenario's vault after a deposit of 2^256 - 1: its balance is at the maximum.\<close>

definition brimful :: storage where
  "brimful = commit st1 (deposit accepting (as_sender alice) 0 (- 1) st1)"

definition erin :: address where "erin = 0xE417"

text \<open>
  The keys of the proposal slot of a vault: recipient, amount, approval count and every
  approval flag.
\<close>

definition proposal_slot :: "u256 \<Rightarrow> key set" where
  "proposal_slot v =
     {fieldKey pPropTo v, fieldKey pPropAmount v, fieldKey pPropApprovals v}
       \<union> {idxKey pApproval v i | i. True}"







text \<open>
  The owner slots of a vault, \<open>0\<close> up to the owner count, and the number of them whose
  approval flag is set.
\<close>

definition owner_indices :: "storage \<Rightarrow> u256 \<Rightarrow> u8 list" where
  "owner_indices s v = map of_nat [0..<unat (getOwnerCount s v)]"

definition flags_set :: "storage \<Rightarrow> u256 \<Rightarrow> nat" where
  "flags_set s v = length (filter (approved s v) (owner_indices s v))"

text \<open>
  Invariant while at most 2^32 vaults exist, per vault: the approvals of an active proposal
  are the flags set among the owner slots, and at least 1; without an active proposal no
  owner slot has its flag set; a slot no vault has been created in has no proposal and no
  flag.
\<close>

definition vault_tally :: "storage \<Rightarrow> u256 \<Rightarrow> bool" where
  "vault_tally s w \<longleftrightarrow>
     (hasProposal s w \<longrightarrow>
        unat (approvals_of s w) = card {i. i < getOwnerCount s w \<and> approved s w i}
        \<and> 1 \<le> unat (approvals_of s w))
     \<and> (\<not> hasProposal s w \<longrightarrow> (\<forall>i. i < getOwnerCount s w \<longrightarrow> \<not> approved s w i))
     \<and> (unat (vaultCount s) \<le> unat (lo32 w) \<longrightarrow> \<not> hasProposal s w \<and> (\<forall>i. \<not> approved s w i))"

text \<open>
  The scenario continued: C approves too (3 approvals), then \<open>n\<close> more vaults of two
  owners are created; after 2^32 of them the last one has id 2^32.
\<close>

definition st5 :: storage where
  "st5 = commit st4 (approve (as_sender carol) 0 st4)"

definition pack :: "nat \<Rightarrow> storage" where
  "pack n = ((\<lambda>s. commit s (createVault asset 2 [alice, bob] 2 s)) ^^ n) st5"

definition aliased :: storage where
  "aliased = pack (2 ^ 32)"

declare requireOwnerIdx_loop.simps [simp del]
declare clearProposal_loop.simps [simp del]
declare createVault_loop.simps [simp del]


section \<open>Storage keys: bytes determine pointer, vault id and index\<close>

lemma ff_mask: "(0xFF :: 'a :: len word) = mask 8"
  by (simp add: mask_eq_exp_minus_1)

lemma byte_bits:
  fixes w w' :: "'a::len word"
  assumes "(ucast ((drop_bit k w) AND 0xFF) :: u8) = ucast ((drop_bit k w') AND 0xFF)"
    and "n < 8"
  shows "bit w (k + n) = bit w' (k + n)"
proof -
  have "bit (ucast ((drop_bit k w) AND 0xFF) :: u8) n = bit (ucast ((drop_bit k w') AND 0xFF) :: u8) n"
    using assms(1) by simp
  then show ?thesis using assms(2)
    by (auto simp add: ff_mask bit_ucast_iff bit_and_iff bit_drop_bit_eq bit_mask_iff
             dest: bit_imp_le_length)
qed

lemma word32_bytes_eq:
  fixes w w' :: u32
  assumes "(ucast ((drop_bit 24 w) AND 0xFF) :: u8) = ucast ((drop_bit 24 w') AND 0xFF)"
      and "(ucast ((drop_bit 16 w) AND 0xFF) :: u8) = ucast ((drop_bit 16 w') AND 0xFF)"
      and "(ucast ((drop_bit 8 w) AND 0xFF) :: u8) = ucast ((drop_bit 8 w') AND 0xFF)"
      and "(ucast (w AND 0xFF) :: u8) = ucast (w' AND 0xFF)"
  shows "w = w'"
proof (rule bit_eqI)
  fix n assume "possible_bit TYPE(u32) n"
  then have n: "n < 32" by (simp add: possible_bit_def)
  have a0: "(ucast ((drop_bit 0 w) AND 0xFF) :: u8) = ucast ((drop_bit 0 w') AND 0xFF)"
    using assms(4) by simp
  consider "n < 8" | "8 \<le> n" "n < 16" | "16 \<le> n" "n < 24" | "24 \<le> n" "n < 32"
    using n by linarith
  then show "bit w n = bit w' n"
  proof cases
    case 1 then show ?thesis using byte_bits[OF a0, of n] by simp
  next
    case 2 then show ?thesis using byte_bits[OF assms(3), of "n - 8"] by simp
  next
    case 3 then show ?thesis using byte_bits[OF assms(2), of "n - 16"] by simp
  next
    case 4 then show ?thesis using byte_bits[OF assms(1), of "n - 24"] by simp
  qed
qed

lemma word16_bytes_eq:
  fixes w w' :: u16
  assumes "(ucast ((drop_bit 8 w) AND 0xFF) :: u8) = ucast ((drop_bit 8 w') AND 0xFF)"
      and "(ucast (w AND 0xFF) :: u8) = ucast (w' AND 0xFF)"
  shows "w = w'"
proof (rule bit_eqI)
  fix n assume "possible_bit TYPE(u16) n"
  then have n: "n < 16" by (simp add: possible_bit_def)
  have a0: "(ucast ((drop_bit 0 w) AND 0xFF) :: u8) = ucast ((drop_bit 0 w') AND 0xFF)"
    using assms(2) by simp
  consider "n < 8" | "8 \<le> n" "n < 16"
    using n by linarith
  then show "bit w n = bit w' n"
  proof cases
    case 1 then show ?thesis using byte_bits[OF a0, of n] by simp
  next
    case 2 then show ?thesis using byte_bits[OF assms(1), of "n - 8"] by simp
  qed
qed

lemma fieldKey_eq_iff:
  "fieldKey p v = fieldKey p' v' \<longleftrightarrow> p = p' \<and> lo32 v = lo32 v'"
proof
  assume "fieldKey p v = fieldKey p' v'"
  then show "p = p' \<and> lo32 v = lo32 v'"
    by (auto simp: fieldKey_def lo32_def Let_def intro: word16_bytes_eq word32_bytes_eq)
next
  assume "p = p' \<and> lo32 v = lo32 v'"
  then show "fieldKey p v = fieldKey p' v'"
    by (simp add: fieldKey_def lo32_def)
qed

lemma idxKey_eq_iff:
  "idxKey p v i = idxKey p' v' i' \<longleftrightarrow> p = p' \<and> lo32 v = lo32 v' \<and> i = i'"
proof
  assume "idxKey p v i = idxKey p' v' i'"
  then show "p = p' \<and> lo32 v = lo32 v' \<and> i = i'"
    by (auto simp: idxKey_def lo32_def Let_def intro: word16_bytes_eq word32_bytes_eq)
next
  assume "p = p' \<and> lo32 v = lo32 v' \<and> i = i'"
  then show "idxKey p v i = idxKey p' v' i'"
    by (simp add: idxKey_def lo32_def)
qed

lemma fieldKey_idxKey_ptr: "fieldKey p v = idxKey p' v' i \<Longrightarrow> p = p'"
  by (auto simp: fieldKey_def idxKey_def Let_def intro: word16_bytes_eq)

lemma fieldKey_vaultCountKey_ptr: "fieldKey p v = vaultCountKey \<Longrightarrow> p = pVaultCount"
  by (auto simp: fieldKey_def vaultCountKey_def Let_def intro: word16_bytes_eq)

lemma idxKey_vaultCountKey_ptr: "idxKey p v i = vaultCountKey \<Longrightarrow> p = pVaultCount"
  by (auto simp: idxKey_def vaultCountKey_def Let_def intro: word16_bytes_eq)

lemma lo32_ucast: "lo32 v = ucast v"
  unfolding lo32_def lo1_def by (rule bit_eqI) (auto simp add: bit_ucast_iff)

lemma lo32_inj_small:
  assumes "unat v < 2 ^ 32" "unat v' < 2 ^ 32" "lo32 v = lo32 v'"
  shows "v = v'"
proof -
  have "unat (lo32 v) = unat v"
    using assms(1) by (simp add: lo32_ucast unsigned_ucast_eq take_bit_nat_eq_self)
  moreover have "unat (lo32 v') = unat v'"
    using assms(2) by (simp add: lo32_ucast unsigned_ucast_eq take_bit_nat_eq_self)
  ultimately have "unat v = unat v'"
    using assms(3) by simp
  then show ?thesis by (rule unsigned_word_eqI)
qed


section \<open>Reading storage after the loops\<close>

lemmas ptr_defs = pVaultCount_def pThreshold_def pOwnerCount_def pToken_def pBalance_def
  pTotalProposals_def pHasProposal_def pOwner_def pPropTo_def pPropAmount_def
  pPropApprovals_def pApproval_def

lemmas st_defs = su_def lu_def sa_def la_def setStorageAt_def getStorageAt_def

lemma fieldKey_idxKey_neq: "p \<noteq> p' \<Longrightarrow> fieldKey p v \<noteq> idxKey p' v' i"
  using fieldKey_idxKey_ptr by blast

lemma idxKey_fieldKey_neq: "p \<noteq> p' \<Longrightarrow> idxKey p' v' i \<noteq> fieldKey p v"
  using fieldKey_idxKey_ptr by metis

lemma fieldKey_vaultCountKey_neq: "p \<noteq> pVaultCount \<Longrightarrow> fieldKey p v \<noteq> vaultCountKey"
  using fieldKey_vaultCountKey_ptr by blast

lemma vaultCountKey_fieldKey_neq: "p \<noteq> pVaultCount \<Longrightarrow> vaultCountKey \<noteq> fieldKey p v"
  using fieldKey_vaultCountKey_ptr by metis

lemma idxKey_vaultCountKey_neq: "p \<noteq> pVaultCount \<Longrightarrow> idxKey p v i \<noteq> vaultCountKey"
  using idxKey_vaultCountKey_ptr by blast

lemma vaultCountKey_idxKey_neq: "p \<noteq> pVaultCount \<Longrightarrow> vaultCountKey \<noteq> idxKey p v i"
  using idxKey_vaultCountKey_ptr by metis

lemmas key_simps = fieldKey_eq_iff idxKey_eq_iff fieldKey_idxKey_neq idxKey_fieldKey_neq
  fieldKey_vaultCountKey_neq vaultCountKey_fieldKey_neq idxKey_vaultCountKey_neq
  vaultCountKey_idxKey_neq

lemma u8_succ: "i < (c :: u8) \<Longrightarrow> unat (i + 1) = Suc (unat i)"
proof -
  assume "i < c"
  then have "unat i < unat c"
    by (simp add: word_less_nat_alt)
  moreover have "unat c < 256"
    using unsigned_less [of c, where 'a = nat] by simp
  ultimately show ?thesis
    by (simp add: unat_word_ariths)
qed

lemma u8_succ_le: "i < (c :: u8) \<Longrightarrow> (i + 1 \<le> j) = (i < j)"
  using u8_succ [of i c] by (auto simp: word_le_nat_alt word_less_nat_alt)

lemma u8_le_less_cases: "i < (c :: u8) \<Longrightarrow> (i \<le> j) = (j = i \<or> i + 1 \<le> j)"
  using u8_succ_le [of i c j] by auto


lemma clearProposal_loop_step:
  "i < c \<Longrightarrow> clearProposal_loop s v c i =
     clearProposal_loop (su s (idxKey pApproval v i) ZERO) v c (i + 1)"
  by (subst clearProposal_loop.simps) simp

lemma clearProposal_loop_stop: "\<not> i < c \<Longrightarrow> clearProposal_loop s v c i = s"
  by (subst clearProposal_loop.simps) simp

lemma clearProposal_loop_read:
  "clearProposal_loop s v c i k =
     (if (\<exists>j. i \<le> j \<and> j < c \<and> k = idxKey pApproval v j) then 0 else s k)"
proof (induction s v c i rule: clearProposal_loop.induct)
  case (1 s v c i)
  show ?case
  proof (cases "i < c")
    case True
    have split: "\<And>j. (i \<le> j) = (j = i \<or> i + 1 \<le> j)"
      using u8_le_less_cases [OF True] .
    show ?thesis
      unfolding clearProposal_loop_step [OF True] "1.IH" [OF True]
      using True by (auto simp: st_defs ZERO_def split)
  next
    case False
    then show ?thesis
      by (auto simp: clearProposal_loop_stop)
  qed
qed

lemma getOwnerCount_eq: "getOwnerCount s v = ucast (lu s (fieldKey pOwnerCount v))"
  unfolding getOwnerCount_def lo1_def
  by (rule bit_eqI) (auto simp add: ff_mask bit_ucast_iff bit_and_iff bit_mask_iff)

lemma getOwnerCount_clear_prefix: "getOwnerCount (su (su (setStorageAt s (fieldKey pPropTo v) 0) (fieldKey pPropAmount v) ZERO)
             (fieldKey pPropApprovals v) ZERO) v = getOwnerCount s v"
    by (simp add: getOwnerCount_eq st_defs key_simps ptr_defs)

lemma clearProposal_read:
  "clearProposal s v k =
     (if k = fieldKey pHasProposal v then 0
      else if (\<exists>j. j < getOwnerCount s v \<and> k = idxKey pApproval v j) then 0
      else if k = fieldKey pPropApprovals v then 0
      else if k = fieldKey pPropAmount v then 0
      else if k = fieldKey pPropTo v then 0
      else s k)"
  unfolding clearProposal_def Let_def getOwnerCount_clear_prefix
  by (simp only: su_def setStorageAt_def fun_upd_apply clearProposal_loop_read ZERO_def
        word_zero_le simp_thms)

lemma requireOwnerIdx_loop_hit:
  "i < c \<Longrightarrow> la s (idxKey pOwner v i) = a \<Longrightarrow> requireOwnerIdx_loop s a v c i = Inr i"
  by (subst requireOwnerIdx_loop.simps) simp

lemma requireOwnerIdx_loop_miss:
  "i < c \<Longrightarrow> la s (idxKey pOwner v i) \<noteq> a \<Longrightarrow>
     requireOwnerIdx_loop s a v c i = requireOwnerIdx_loop s a v c (i + 1)"
  by (subst requireOwnerIdx_loop.simps) simp

lemma requireOwnerIdx_loop_stop:
  "\<not> i < c \<Longrightarrow> requireOwnerIdx_loop s a v c i = Inl (Revert ''not an owner'')"
  by (subst requireOwnerIdx_loop.simps) simp

lemma requireOwnerIdx_loop_Inr:
  "requireOwnerIdx_loop s a v c i = Inr idx \<longleftrightarrow>
     i \<le> idx \<and> idx < c \<and> la s (idxKey pOwner v idx) = a
     \<and> (\<forall>j. i \<le> j \<and> j < idx \<longrightarrow> la s (idxKey pOwner v j) \<noteq> a)"
proof (induction s a v c i rule: requireOwnerIdx_loop.induct)
  case (1 s a v c i)
  show ?case
  proof (cases "i < c")
    case False
    then show ?thesis
      by (auto simp: requireOwnerIdx_loop_stop)
  next
    case True
    show ?thesis
    proof (cases "la s (idxKey pOwner v i) = a")
      case hit: True
      show ?thesis
        unfolding requireOwnerIdx_loop_hit [OF True hit]
      proof
        assume "(Inr i :: error + u8) = Inr idx"
        then have "idx = i" by simp
        then show "i \<le> idx \<and> idx < c \<and> la s (idxKey pOwner v idx) = a
            \<and> (\<forall>j. i \<le> j \<and> j < idx \<longrightarrow> la s (idxKey pOwner v j) \<noteq> a)"
          using True hit by auto
      next
        assume r: "i \<le> idx \<and> idx < c \<and> la s (idxKey pOwner v idx) = a
            \<and> (\<forall>j. i \<le> j \<and> j < idx \<longrightarrow> la s (idxKey pOwner v j) \<noteq> a)"
        then have "\<not> i < idx"
          using hit by blast
        with r have "idx = i"
          by auto
        then show "(Inr i :: error + u8) = Inr idx"
          by simp
      qed
    next
      case miss: False
      have succ: "\<And>j. (i + 1 \<le> j) = (i < j)"
        using u8_succ_le [OF True] .
      show ?thesis
        unfolding requireOwnerIdx_loop_miss [OF True miss] "1.IH" [OF True miss] succ
        using miss by (metis order.order_iff_strict)
    qed
  qed
qed

lemma requireOwnerIdx_loop_Inl:
  "requireOwnerIdx_loop s a v c i = Inl e \<longleftrightarrow>
     e = Revert ''not an owner'' \<and> (\<forall>j. i \<le> j \<and> j < c \<longrightarrow> la s (idxKey pOwner v j) \<noteq> a)"
proof (induction s a v c i rule: requireOwnerIdx_loop.induct)
  case (1 s a v c i)
  show ?case
  proof (cases "i < c")
    case False
    then show ?thesis
      by (auto simp: requireOwnerIdx_loop_stop)
  next
    case True
    show ?thesis
    proof (cases "la s (idxKey pOwner v i) = a")
      case hit: True
      show ?thesis
        unfolding requireOwnerIdx_loop_hit [OF True hit]
        using True hit by auto
    next
      case miss: False
      have succ: "\<And>j. (i + 1 \<le> j) = (i < j)"
        using u8_succ_le [OF True] .
      show ?thesis
        unfolding requireOwnerIdx_loop_miss [OF True miss] "1.IH" [OF True miss] succ
        using miss by (metis order.order_iff_strict)
    qed
  qed
qed

lemma requireOwnerIdx_loop_cong:
  assumes "\<And>j. la s' (idxKey pOwner v j) = la s (idxKey pOwner v j)"
  shows "requireOwnerIdx_loop s' a v c i = requireOwnerIdx_loop s a v c i"
proof (cases "requireOwnerIdx_loop s a v c i")
  case (Inl e)
  then have "requireOwnerIdx_loop s' a v c i = Inl e"
    by (simp add: requireOwnerIdx_loop_Inl assms)
  with Inl show ?thesis by simp
next
  case (Inr idx)
  then have "requireOwnerIdx_loop s' a v c i = Inr idx"
    by (simp add: requireOwnerIdx_loop_Inr assms)
  with Inr show ?thesis by simp
qed



section \<open>Storage addressing\<close>

text \<open>
  Claim C5. The storage-key functions are injective on vault ids that fit in 32 bits:
  (a) two field keys are equal only for the same pointer and the same vault id;
  (b) two indexed keys are equal only for the same pointer, vault id and index;
  (c) a field key equals an indexed key only under the same pointer. The contract uses
  each pointer with one of the two shapes only, so (d) none of its field keys is one of
  its indexed keys: no two distinct (pointer, vault id[, index]) tuples of the contract
  share a key.
\<close>

theorem storage_keys_injective:
  assumes "unat v1 < 2 ^ 32" and "unat v2 < 2 ^ 32"
  shows "(fieldKey p1 v1 = fieldKey p2 v2 \<longrightarrow> p1 = p2 \<and> v1 = v2)
       \<and> (idxKey p1 v1 i1 = idxKey p2 v2 i2 \<longrightarrow> p1 = p2 \<and> v1 = v2 \<and> i1 = i2)
       \<and> (fieldKey p1 v1 = idxKey p2 v2 i2 \<longrightarrow> p1 = p2)
       \<and> (p1 \<in> fieldPointers \<longrightarrow> p2 \<in> indexPointers \<longrightarrow> fieldKey p1 v1 \<noteq> idxKey p2 v2 i2)"
proof -
  have a: "p1 = p2 \<and> v1 = v2" if "fieldKey p1 v1 = fieldKey p2 v2"
  proof -
    from that have "p1 = p2" and "lo32 v1 = lo32 v2"
      by (simp_all add: fieldKey_eq_iff)
    then show ?thesis
      using lo32_inj_small [OF assms] by simp
  qed
  have b: "p1 = p2 \<and> v1 = v2 \<and> i1 = i2" if "idxKey p1 v1 i1 = idxKey p2 v2 i2"
  proof -
    from that have "p1 = p2" and "lo32 v1 = lo32 v2" and "i1 = i2"
      by (simp_all add: idxKey_eq_iff)
    then show ?thesis
      using lo32_inj_small [OF assms] by simp
  qed
  have c: "p1 = p2" if "fieldKey p1 v1 = idxKey p2 v2 i2"
    using that by (rule fieldKey_idxKey_ptr)
  have d: "fieldKey p1 v1 \<noteq> idxKey p2 v2 i2" if "p1 \<in> fieldPointers" and "p2 \<in> indexPointers"
  proof -
    from that have "p1 \<noteq> p2"
      by (auto simp: fieldPointers_def indexPointers_def ptr_defs)
    then show ?thesis
      by (rule fieldKey_idxKey_neq)
  qed
  from a b c d show ?thesis
    by blast
qed

theorem storage_keys_injective_witness:
  "unat (3 :: u256) < 2 ^ 32 \<and> unat (4 :: u256) < 2 ^ 32
   \<and> pBalance \<in> fieldPointers \<and> pApproval \<in> indexPointers
   \<and> fieldKey pBalance 3 = fieldKey pBalance 3
   \<and> idxKey pOwner 4 1 = idxKey pOwner 4 1
   \<and> fieldKey pBalance 3 \<noteq> fieldKey pBalance 4
   \<and> idxKey pOwner 3 1 \<noteq> idxKey pOwner 3 2
   \<and> fieldKey pBalance 3 \<noteq> idxKey pApproval 4 0"
proof -
  have h3: "unat (3 :: u256) < 2 ^ 32" and h4: "unat (4 :: u256) < 2 ^ 32"
    by simp_all
  have mem: "pBalance \<in> fieldPointers" "pApproval \<in> indexPointers"
    by (simp_all add: fieldPointers_def indexPointers_def)
  show ?thesis
    using h3 h4 mem
      storage_keys_injective [OF h3 h4, where ?p1.0 = pBalance and ?p2.0 = pBalance
        and ?i1.0 = 1 and ?i2.0 = 1]
      storage_keys_injective [OF h3 h3, where ?p1.0 = pOwner and ?p2.0 = pOwner
        and ?i1.0 = 1 and ?i2.0 = 2]
      storage_keys_injective [OF h3 h4, where ?p1.0 = pBalance and ?p2.0 = pApproval
        and ?i1.0 = 0 and ?i2.0 = 0]
    by auto
qed

lemma SafeMath_add_Inr: "SafeMath_add a b = Inr c \<longleftrightarrow> unat a + unat b < 2 ^ 256 \<and> c = a + b"
  using no_plus_overflow_unat_size [of a b]
  by (auto simp: SafeMath_add_def Let_def not_less word_size)

lemma SafeMath_add_Inl: "SafeMath_add a b = Inl e \<longleftrightarrow> \<not> unat a + unat b < 2 ^ 256 \<and> e = SafeMathOverflow"
  using no_plus_overflow_unat_size [of a b]
  by (auto simp: SafeMath_add_def Let_def not_less word_size)

lemma SafeMath_sub_Inr: "SafeMath_sub a b = Inr c \<longleftrightarrow> b \<le> a \<and> c = a - b"
  by (auto simp: SafeMath_sub_def)

lemma SafeMath_sub_Inl: "SafeMath_sub a b = Inl e \<longleftrightarrow> a < b \<and> e = SafeMathUnderflow"
  by (auto simp: SafeMath_sub_def)

lemma requireVault_Inr: "requireVault s v = Inr u \<longleftrightarrow> v < vaultCount s"
  by (auto simp: requireVault_def)

lemma requireVault_Inl: "requireVault s v = Inl e \<longleftrightarrow> vaultCount s \<le> v \<and> e = Revert ''vault not found''"
  by (auto simp: requireVault_def)

lemma approve_Inr_iff:
  "approve c v s = Inr (r, s') \<longleftrightarrow>
     (\<exists>idx. v < vaultCount s \<and> requireOwnerIdx c s v = Inr idx \<and> hasProposal s v
        \<and> \<not> approved s v idx \<and> unat (approvals_of s v) + 1 < 2 ^ 256 \<and> r
        \<and> s' = su (su s (idxKey pApproval v idx) ONE) (fieldKey pPropApprovals v)
                  (approvals_of s v + 1))"
proof -
  have cur: "\<And>idx. lu (su s (idxKey pApproval v idx) ONE) (fieldKey pPropApprovals v)
      = approvals_of s v"
    by (simp add: approvals_of_def st_defs key_simps ptr_defs)
  show ?thesis
    unfolding approve_def Let_def cur
    by (auto simp: requireVault_Inr requireVault_Inl SafeMath_add_Inr SafeMath_add_Inl
          hasProposal_def approved_def ONE_def ZERO_def
          split: sum.splits)
qed

lemma getOwnerCount_su_other:
  "k \<noteq> fieldKey pOwnerCount v \<Longrightarrow> getOwnerCount (su s k x) v = getOwnerCount s v"
  by (simp add: getOwnerCount_eq st_defs)

lemma requireOwnerIdx_cong:
  assumes "\<And>j. la s' (idxKey pOwner v j) = la s (idxKey pOwner v j)"
    and "getOwnerCount s' v = getOwnerCount s v"
  shows "requireOwnerIdx c s' v = requireOwnerIdx c s v"
  unfolding requireOwnerIdx_def assms(2)
  by (rule requireOwnerIdx_loop_cong) (rule assms(1))

lemma settled_read:
  "settled s v k =
     (if k = fieldKey pHasProposal v then 0
      else if (\<exists>j. j < getOwnerCount s v \<and> k = idxKey pApproval v j) then 0
      else if k = fieldKey pPropApprovals v then 0
      else if k = fieldKey pPropAmount v then 0
      else if k = fieldKey pPropTo v then 0
      else if k = fieldKey pBalance v then balance_of s v - propAmount_of s v
      else s k)"
  unfolding settled_def clearProposal_read
  by (auto simp add: getOwnerCount_eq key_simps ptr_defs st_defs)

lemma executeProposal_Inr_iff:
  "executeProposal X c v s = Inr (r, s') \<longleftrightarrow>
     v < vaultCount s \<and> hasProposal s v \<and> threshold_of s v \<le> approvals_of s v
     \<and> propAmount_of s v \<le> balance_of s v \<and> r
     \<and> X (Transfer (la s (fieldKey pToken v)) (propTo_of s v) (propAmount_of s v)) (settled s v)
         = Some s'"
  unfolding executeProposal_def Let_def settled_def
  by (auto simp: requireVault_Inr requireVault_Inl SafeMath_sub_Inr SafeMath_sub_Inl
        hasProposal_def threshold_of_def approvals_of_def propAmount_of_def balance_of_def
        propTo_of_def not_less
        split: sum.splits option.splits)

lemma deposit_Inr_iff:
  "deposit X c v amt s = Inr (r, s') \<longleftrightarrow>
     v < vaultCount s \<and> amt \<noteq> 0 \<and> r
     \<and> (\<exists>s1. X (TransferFrom (la s (fieldKey pToken v)) (sender c) (contractAddress c) amt) s = Some s1
           \<and> unat (balance_of s1 v) + unat amt < 2 ^ 256
           \<and> s' = su s1 (fieldKey pBalance v) (balance_of s1 v + amt))"
  unfolding deposit_def Let_def
  by (auto simp: requireVault_Inr requireVault_Inl SafeMath_add_Inr SafeMath_add_Inl
        balance_of_def ZERO_def
        split: sum.splits option.splits)

lemma propose_writes:
  "su (su (su (su (su (sa (if lu s (fieldKey pHasProposal v) \<noteq> ZERO then clearProposal s v else s)
       (fieldKey pPropTo v) to) (fieldKey pPropAmount v) amt) (fieldKey pPropApprovals v) ONE)
       (idxKey pApproval v idx) ONE) (fieldKey pHasProposal v) ONE)
       (fieldKey pTotalProposals v) t
   = (proposed s v idx to amt) (fieldKey pTotalProposals v := t)"
  by (rule ext)
     (auto simp add: proposed_def st_defs clearProposal_read hasProposal_def ONE_def ZERO_def
        totalProposals_of_def)

lemma proposed_total_upd:
  "(proposed s v idx to amt) (fieldKey pTotalProposals v := totalProposals_of s v + 1)
     = proposed s v idx to amt"
  by (rule ext) (simp add: proposed_def)

lemma propose_total:
  "lu (su (su (su (su (sa (if lu s (fieldKey pHasProposal v) \<noteq> ZERO then clearProposal s v else s)
       (fieldKey pPropTo v) to) (fieldKey pPropAmount v) amt) (fieldKey pPropApprovals v) ONE)
       (idxKey pApproval v idx) ONE) (fieldKey pHasProposal v) ONE)
       (fieldKey pTotalProposals v) = totalProposals_of s v"
  by (simp add: st_defs clearProposal_read totalProposals_of_def key_simps ptr_defs)

lemma propose_Inr_iff:
  "propose c v to amt s = Inr (r, s') \<longleftrightarrow>
     (\<exists>idx. v < vaultCount s \<and> requireOwnerIdx c s v = Inr idx \<and> amt \<noteq> 0 \<and> to \<noteq> 0
        \<and> amt \<le> balance_of s v \<and> unat (totalProposals_of s v) + 1 < 2 ^ 256 \<and> r
        \<and> s' = proposed s v idx to amt)"
  unfolding propose_def Let_def propose_total propose_writes
  by (auto simp: requireVault_Inr requireVault_Inl SafeMath_add_Inr SafeMath_add_Inl
        balance_of_def ZERO_def ONE_def not_less proposed_total_upd
        split: sum.splits)

lemma isDuplicate_iff: "isDuplicate owners x \<longleftrightarrow> x \<in> set owners"
  by (induction owners) auto

lemma createVault_loop_stop: "\<not> i < c \<Longrightarrow> createVault_loop s v c cd owners i = Inr s"
  by (subst createVault_loop.simps) simp

lemma createVault_loop_step:
  "i < c \<Longrightarrow> createVault_loop s v c cd owners i =
     (case cd of
        [] \<Rightarrow> Inl CalldataOutOfBounds
      | x # rest \<Rightarrow>
          if x = 0 then Inl (Revert ''zero address'')
          else if x \<in> set owners then Inl (Revert ''duplicate owner'')
          else createVault_loop (sa s (idxKey pOwner v i) x) v c rest (owners @ [x]) (i + 1))"
  by (subst createVault_loop.simps) (simp add: isDuplicate_iff split: list.splits)

lemma u8_diff_succ: "i < (c :: u8) \<Longrightarrow> unat c - unat i = Suc (unat c - unat (i + 1))"
  using u8_succ [of i c] by (simp add: word_less_nat_alt)

lemma u8_succ_leq: "i < (c :: u8) \<Longrightarrow> i + 1 \<le> c"
  using u8_succ_le [of i c c] by simp

lemma createVault_loop_Inr:
  "createVault_loop s v c cd owners i = Inr s' \<Longrightarrow> i \<le> c \<Longrightarrow>
     unat c - unat i \<le> length cd
     \<and> (\<forall>m < unat c - unat i. cd ! m \<noteq> 0 \<and> cd ! m \<notin> set owners)
     \<and> distinct (take (unat c - unat i) cd)
     \<and> (\<forall>j. i \<le> j \<and> j < c \<longrightarrow> s' (idxKey pOwner v j) = cd ! (unat j - unat i))
     \<and> (\<forall>k. (\<forall>j. i \<le> j \<and> j < c \<longrightarrow> k \<noteq> idxKey pOwner v j) \<longrightarrow> s' k = s k)"
proof (induction s v c cd owners i arbitrary: s' rule: createVault_loop.induct)
  case (1 s v c cd owners i)
  show ?case
  proof (cases "i < c")
    case False
    with "1.prems" have "c = i" by simp
    moreover have "s' = s"
      using "1.prems"(1) False by (simp add: createVault_loop_stop)
    ultimately show ?thesis by auto
  next
    case True
    from "1.prems"(1) obtain x rest where cd: "cd = x # rest" and x0: "x \<noteq> 0"
      and xn: "x \<notin> set owners"
      and rec: "createVault_loop (sa s (idxKey pOwner v i) x) v c rest (owners @ [x]) (i + 1) = Inr s'"
      unfolding createVault_loop_step [OF True]
      by (auto split: list.splits if_splits)
    have dup: "\<not> isDuplicate owners x"
      using xn by (simp add: isDuplicate_iff)
    note IH = "1.IH" [OF True cd x0 dup rec u8_succ_leq [OF True]]
    have n: "unat c - unat i = Suc (unat c - unat (i + 1))"
      by (rule u8_diff_succ [OF True])
    have succ: "\<And>j. (i + 1 \<le> j) = (i < j)"
      using u8_succ_le [OF True] .
    have len: "unat c - unat i \<le> length cd"
      using IH cd n by simp
    have nz: "\<forall>m < unat c - unat i. cd ! m \<noteq> 0 \<and> cd ! m \<notin> set owners"
    proof (intro allI impI)
      fix m assume m: "m < unat c - unat i"
      show "cd ! m \<noteq> 0 \<and> cd ! m \<notin> set owners"
      proof (cases m)
        case 0
        then show ?thesis using cd x0 xn by simp
      next
        case (Suc m')
        then have "m' < unat c - unat (i + 1)" using m n by simp
        with IH have "rest ! m' \<noteq> 0 \<and> rest ! m' \<notin> set (owners @ [x])" by blast
        then show ?thesis using cd Suc by simp
      qed
    qed
    have xrest: "x \<notin> set (take (unat c - unat (i + 1)) rest)"
    proof
      assume "x \<in> set (take (unat c - unat (i + 1)) rest)"
      then obtain m where "m < unat c - unat (i + 1)" and "rest ! m = x"
        by (auto simp: in_set_conv_nth)
      with IH show False by auto
    qed
    have dist: "distinct (take (unat c - unat i) cd)"
      using IH cd n xrest by simp
    have rd: "\<forall>j. i \<le> j \<and> j < c \<longrightarrow> s' (idxKey pOwner v j) = cd ! (unat j - unat i)"
    proof (intro allI impI)
      fix j assume j: "i \<le> j \<and> j < c"
      show "s' (idxKey pOwner v j) = cd ! (unat j - unat i)"
      proof (cases "j = i")
        case True
        have "\<forall>j'. i + 1 \<le> j' \<and> j' < c \<longrightarrow> idxKey pOwner v i \<noteq> idxKey pOwner v j'"
          by (auto simp: key_simps succ)
        with IH have "s' (idxKey pOwner v i) = (sa s (idxKey pOwner v i) x) (idxKey pOwner v i)"
          by blast
        then show ?thesis using True cd by (simp add: st_defs)
      next
        case False
        with j have lt: "i < j" by auto
        then have "i + 1 \<le> j \<and> j < c" using j succ by simp
        with IH have "s' (idxKey pOwner v j) = rest ! (unat j - unat (i + 1))" by blast
        moreover have "unat j - unat i = Suc (unat j - unat (i + 1))"
          by (rule u8_diff_succ [OF lt])
        ultimately show ?thesis using cd by simp
      qed
    qed
    have fr: "\<forall>k. (\<forall>j. i \<le> j \<and> j < c \<longrightarrow> k \<noteq> idxKey pOwner v j) \<longrightarrow> s' k = s k"
    proof (intro allI impI)
      fix k assume k: "\<forall>j. i \<le> j \<and> j < c \<longrightarrow> k \<noteq> idxKey pOwner v j"
      then have "\<forall>j. i + 1 \<le> j \<and> j < c \<longrightarrow> k \<noteq> idxKey pOwner v j"
        unfolding succ by (metis order.strict_implies_order)
      with IH have "s' k = (sa s (idxKey pOwner v i) x) k" by blast
      moreover have "k \<noteq> idxKey pOwner v i" using k True by auto
      ultimately show "s' k = s k" by (simp add: st_defs)
    qed
    from len nz dist rd fr show ?thesis by blast
  qed
qed

lemma createVault_loop_ok:
  "i \<le> c \<Longrightarrow> unat c - unat i \<le> length cd \<Longrightarrow>
   (\<forall>m < unat c - unat i. cd ! m \<noteq> 0 \<and> cd ! m \<notin> set owners) \<Longrightarrow>
   distinct (take (unat c - unat i) cd) \<Longrightarrow>
   \<exists>s'. createVault_loop s v c cd owners i = Inr s'"
proof (induction s v c cd owners i rule: createVault_loop.induct)
  case (1 s v c cd owners i)
  show ?case
  proof (cases "i < c")
    case False
    then show ?thesis by (simp add: createVault_loop_stop)
  next
    case True
    have n: "unat c - unat i = Suc (unat c - unat (i + 1))"
      by (rule u8_diff_succ [OF True])
    with "1.prems"(2) obtain x rest where cd: "cd = x # rest"
      by (cases cd) auto
    have x0: "x \<noteq> 0" and xn: "x \<notin> set owners"
      using "1.prems"(3) n cd by auto
    have dup: "\<not> isDuplicate owners x"
      using xn by (simp add: isDuplicate_iff)
    have len: "unat c - unat (i + 1) \<le> length rest"
      using "1.prems"(2) n cd by simp
    have dist: "distinct (take (unat c - unat (i + 1)) rest)"
      and xrest: "x \<notin> set (take (unat c - unat (i + 1)) rest)"
      using "1.prems"(4) n cd by simp_all
    have nz: "\<forall>m < unat c - unat (i + 1). rest ! m \<noteq> 0 \<and> rest ! m \<notin> set (owners @ [x])"
    proof (intro allI impI)
      fix m assume m: "m < unat c - unat (i + 1)"
      then have "Suc m < unat c - unat i" using n by simp
      with "1.prems"(3) have "cd ! Suc m \<noteq> 0 \<and> cd ! Suc m \<notin> set owners" by blast
      moreover have "rest ! m \<in> set (take (unat c - unat (i + 1)) rest)"
        using m len by (auto simp: in_set_conv_nth)
      then have "rest ! m \<noteq> x" using xrest by auto
      ultimately show "rest ! m \<noteq> 0 \<and> rest ! m \<notin> set (owners @ [x])"
        using cd by simp
    qed
    have "\<exists>s'. createVault_loop (sa s (idxKey pOwner v i) x) v c rest (owners @ [x]) (i + 1) = Inr s'"
      by (rule "1.IH" [OF True cd x0 dup u8_succ_leq [OF True] len nz dist])
    then show ?thesis
      unfolding createVault_loop_step [OF True] using cd x0 xn by simp
  qed
qed





lemma fieldKey_lo32_cong: "lo32 w = lo32 v \<Longrightarrow> fieldKey p w = fieldKey p v"
  by (simp add: fieldKey_eq_iff)

lemma idxKey_lo32_cong: "lo32 w = lo32 v \<Longrightarrow> idxKey p w i = idxKey p v i"
  by (simp add: idxKey_eq_iff)

lemma ucast_u8_u32_u256 [simp]: "(ucast (ucast (ucast (n :: u8) :: u32) :: u256) :: u8) = n"
  by (rule bit_eqI) (auto simp add: bit_ucast_iff)

lemma unat_ucast_u8_u32_u256 [simp]: "unat (ucast (ucast (n :: u8) :: u32) :: u256) = unat n"
proof -
  have a: "unat n < 256"
    using unsigned_less [of n, where 'a = nat] by simp
  then have b: "unat (ucast n :: u32) = unat n"
    by (simp add: unsigned_ucast_eq take_bit_nat_eq_self_iff)
  have "unat (ucast (ucast n :: u32) :: u256) = unat (ucast n :: u32)"
    using a b by (simp add: unsigned_ucast_eq [of "ucast n :: u32"] take_bit_nat_eq_self_iff)
  with b show ?thesis by simp
qed

lemma createVault_Inr_iff:
  "createVault tok n cd t s = Inr (vid, s') \<longleftrightarrow>
     2 \<le> n \<and> n \<le> 10 \<and> 2 \<le> t \<and> t \<le> n \<and> unat (vaultCount s) + 1 < 2 ^ 256
     \<and> vid = vaultCount s
     \<and> (\<exists>s1. createVault_loop s (vaultCount s) n cd [] 0 = Inr s1
           \<and> s' = su (sa (su (su s1 (fieldKey pThreshold (vaultCount s)) (ucast (ucast t :: u32)))
                       (fieldKey pOwnerCount (vaultCount s)) (ucast (ucast n :: u32)))
                     (fieldKey pToken (vaultCount s)) tok) vaultCountKey (vaultCount s + 1))"
  unfolding createVault_def Let_def
  by (auto simp: SafeMath_add_Inr SafeMath_add_Inl MAX_OWNERS_def ONE_def not_less
        split: sum.splits)

lemmas view_defs = threshold_of_def balance_of_def totalProposals_of_def hasProposal_def
  propTo_of_def propAmount_of_def approvals_of_def approved_def owner_at_def

lemma vault_ok_cong:
  assumes "\<And>p. s' (fieldKey p w) = s (fieldKey p v)"
    and "\<And>i. s' (idxKey pApproval w i) = s (idxKey pApproval v i)"
  shows "vault_ok s' w = vault_ok s v"
  by (simp add: vault_ok_def view_defs st_defs assms)

lemma vault_ok_lo32:
  assumes "lo32 w = lo32 v"
  shows "vault_ok s w = vault_ok s v"
  by (rule vault_ok_cong)
     (simp_all add: fieldKey_lo32_cong [OF assms] idxKey_lo32_cong [OF assms])

lemma vault_ok_deployed: "vault_ok deployed w"
  by (simp add: vault_ok_def view_defs st_defs deployed_def ZERO_def)

lemma inert_Some: "inert ok c st = Some st' \<longleftrightarrow> ok c \<and> st' = st"
  by (auto simp: inert_def)

lemma vault_ok_createVault:
  assumes "createVault tok n cd t s = Inr (vid, s')" and "vault_ok s w"
  shows "vault_ok s' w"
proof -
  from assms(1) obtain s1 where
    loop: "createVault_loop s (vaultCount s) n cd [] 0 = Inr s1"
    and s': "s' = su (sa (su (su s1 (fieldKey pThreshold (vaultCount s)) (ucast (ucast t :: u32)))
                       (fieldKey pOwnerCount (vaultCount s)) (ucast (ucast n :: u32)))
                     (fieldKey pToken (vaultCount s)) tok) vaultCountKey (vaultCount s + 1)"
    unfolding createVault_Inr_iff by blast
  have fr: "\<And>k. (\<forall>j. k \<noteq> idxKey pOwner (vaultCount s) j) \<Longrightarrow> s1 k = s k"
    using createVault_loop_Inr [OF loop] by simp
  have "vault_ok s' w = vault_ok s w"
    unfolding vault_ok_def view_defs s'
    by (simp add: st_defs key_simps ptr_defs fr)
  with assms(2) show ?thesis by simp
qed

lemma vault_ok_deposit:
  assumes "deposit (inert ok) c v amt s = Inr (r, s')" and "vault_ok s w"
  shows "vault_ok s' w"
proof -
  from assms(1) have s': "s' = su s (fieldKey pBalance v) (balance_of s v + amt)"
    and nov: "unat (balance_of s v) + unat amt < 2 ^ 256"
    unfolding deposit_Inr_iff inert_Some by auto
  have le: "balance_of s v \<le> balance_of s v + amt"
    using nov no_plus_overflow_unat_size [of "balance_of s v" amt] by (simp add: word_size)
  show ?thesis
  proof (cases "lo32 w = lo32 v")
    case True
    have "vault_ok s v" using assms(2) vault_ok_lo32 [OF True] by simp
    then have "vault_ok s' v"
      unfolding vault_ok_def view_defs s' using le
      by (auto simp add: st_defs key_simps ptr_defs balance_of_def)
    then show ?thesis using vault_ok_lo32 [OF True] by simp
  next
    case False
    have "vault_ok s' w = vault_ok s w"
      unfolding vault_ok_def view_defs s' using False
      by (simp add: st_defs key_simps ptr_defs)
    with assms(2) show ?thesis by simp
  qed
qed

lemma vault_ok_propose:
  assumes "propose c v to amt s = Inr (r, s')" and "vault_ok s w"
  shows "vault_ok s' w"
proof -
  from assms(1) obtain idx where s': "s' = proposed s v idx to amt"
    and le: "amt \<le> balance_of s v"
    unfolding propose_Inr_iff by blast
  show ?thesis
  proof (cases "lo32 w = lo32 v")
    case True
    have "approved s' v idx"
      unfolding s' by (simp add: approved_def proposed_def st_defs key_simps ptr_defs ZERO_def)
    then have "{i. approved s' v i} \<noteq> {}" by blast
    then have "0 < card {i. approved s' v i}"
      by (simp add: card_gt_0_iff)
    moreover have "approvals_of s' v = 1" "propAmount_of s' v = amt"
      "balance_of s' v = balance_of s v"
      unfolding s' by (simp_all add: view_defs proposed_def st_defs key_simps ptr_defs)
    ultimately have "vault_ok s' v"
      using le by (simp add: vault_ok_def)
    then show ?thesis using vault_ok_lo32 [OF True] by simp
  next
    case False
    have "vault_ok s' w = vault_ok s w"
      unfolding vault_ok_def view_defs s' using False
      by (simp add: proposed_def st_defs key_simps ptr_defs)
    with assms(2) show ?thesis by simp
  qed
qed

lemma vault_ok_approve:
  assumes "approve c v s = Inr (r, s')" and "vault_ok s w"
  shows "vault_ok s' w"
proof -
  from assms(1) obtain idx where
    s': "s' = su (su s (idxKey pApproval v idx) ONE) (fieldKey pPropApprovals v) (approvals_of s v + 1)"
    and hp: "hasProposal s v" and na: "\<not> approved s v idx"
    and nov: "unat (approvals_of s v) + 1 < 2 ^ 256"
    unfolding approve_Inr_iff by blast
  show ?thesis
  proof (cases "lo32 w = lo32 v")
    case True
    have ok: "vault_ok s v" using assms(2) vault_ok_lo32 [OF True] by simp
    have set: "{i. approved s' v i} = insert idx {i. approved s v i}"
      unfolding s' by (auto simp add: approved_def st_defs key_simps ptr_defs ONE_def ZERO_def)
    have card: "card {i. approved s' v i} = Suc (card {i. approved s v i})"
      unfolding set using na by simp
    have ap: "unat (approvals_of s' v) = Suc (unat (approvals_of s v))"
    proof -
      have "approvals_of s' v = approvals_of s v + 1"
        unfolding s' by (simp add: view_defs st_defs key_simps ptr_defs)
      moreover have "unat (approvals_of s v + 1) = unat (approvals_of s v) + unat (1 :: u256)"
        using nov by (subst unat_add_lem [THEN iffD1]) simp_all
      ultimately show ?thesis by simp
    qed
    have rest: "hasProposal s' v = hasProposal s v" "propAmount_of s' v = propAmount_of s v"
      "balance_of s' v = balance_of s v"
      unfolding s' by (simp_all add: view_defs st_defs key_simps ptr_defs)
    have "vault_ok s' v"
      using ok hp unfolding vault_ok_def rest card ap by simp
    then show ?thesis using vault_ok_lo32 [OF True] by simp
  next
    case False
    have "vault_ok s' w = vault_ok s w"
      unfolding vault_ok_def view_defs s' using False
      by (simp add: st_defs key_simps ptr_defs)
    with assms(2) show ?thesis by simp
  qed
qed

lemma vault_ok_executeProposal:
  assumes "executeProposal (inert ok) c v s = Inr (r, s')" and "vault_ok s w"
  shows "vault_ok s' w"
proof -
  from assms(1) have s': "s' = settled s v"
    unfolding executeProposal_Inr_iff inert_Some by simp
  show ?thesis
  proof (cases "lo32 w = lo32 v")
    case True
    have "\<not> hasProposal s' v"
      unfolding s' by (simp add: hasProposal_def st_defs settled_read ZERO_def)
    then have "vault_ok s' v" by (simp add: vault_ok_def)
    then show ?thesis using vault_ok_lo32 [OF True] by simp
  next
    case False
    have "vault_ok s' w = vault_ok s w"
      unfolding vault_ok_def view_defs s' using False
      by (simp add: st_defs settled_read key_simps ptr_defs)
    with assms(2) show ?thesis by simp
  qed
qed

lemma reachable_vault_ok: "reachable s \<Longrightarrow> vault_ok s w"
proof (induction rule: reachable.induct)
  case r_deployed
  show ?case by (rule vault_ok_deployed)
next
  case (r_createVault s token ownerCount calldata threshold vid s')
  then show ?case by (blast intro: vault_ok_createVault)
next
  case (r_deposit s ok c vaultId amount r s')
  then show ?case by (blast intro: vault_ok_deposit)
next
  case (r_propose s c vaultId to amount r s')
  then show ?case by (blast intro: vault_ok_propose)
next
  case (r_approve s c vaultId r s')
  then show ?case by (blast intro: vault_ok_approve)
next
  case (r_executeProposal s ok c vaultId r s')
  then show ?case by (blast intro: vault_ok_executeProposal)
qed

lemmas who_defs = alice_def bob_def carol_def dave_def asset_def as_sender_def accepting_def

lemma deployed_read: "deployed k = 0"
  by (simp add: deployed_def)

lemma vaultCount_deployed: "vaultCount deployed = 0"
  by (simp add: vaultCount_def st_defs deployed_read)

lemma createVault_loop_st1:
  "createVault_loop deployed 0 3 [alice, bob, carol] [] 0
     = Inr (sa (sa (sa deployed (idxKey pOwner 0 0) alice) (idxKey pOwner 0 1) bob)
              (idxKey pOwner 0 2) carol)"
  by (simp add: createVault_loop_step createVault_loop_stop who_defs)

lemma st1_createVault:
  "createVault asset 3 [alice, bob, carol] 2 deployed = Inr (0, st1)"
  unfolding st1_def
  by (simp add: createVault_def vaultCount_deployed createVault_loop_st1 MAX_OWNERS_def
        SafeMath_add_def ONE_def commit_def)

lemma st1_eq:
  "st1 = su (sa (su (su (sa (sa (sa deployed (idxKey pOwner 0 0) alice) (idxKey pOwner 0 1) bob)
              (idxKey pOwner 0 2) carol) (fieldKey pThreshold 0) 2) (fieldKey pOwnerCount 0) 3)
              (fieldKey pToken 0) asset) vaultCountKey 1"
  unfolding st1_def
  by (simp add: createVault_def vaultCount_deployed createVault_loop_st1 MAX_OWNERS_def
        SafeMath_add_def ONE_def commit_def)

lemma st1_vaultCount: "vaultCount st1 = 1"
  by (simp add: st1_eq deployed_read vaultCount_def st_defs)

lemma commit_Inr: "x = Inr (r, s') \<Longrightarrow> commit s x = s'"
  by (simp add: commit_def)

lemma commit_Inl: "x = Inl e \<Longrightarrow> commit s x = s"
  by (simp add: commit_def)

lemma st1_views:
  "balance_of st1 0 = 0" "la st1 (fieldKey pToken 0) = asset"
  by (simp_all add: view_defs st1_eq deployed_read st_defs key_simps ptr_defs)

lemma st2_deposit:
  "deposit accepting (as_sender alice) 0 1000 st1 = Inr (True, su st1 (fieldKey pBalance 0) 1000)"
  unfolding deposit_Inr_iff accepting_def inert_Some
  by (simp add: st1_vaultCount st1_views)

lemma st2_eq: "st2 = su st1 (fieldKey pBalance 0) 1000"
  unfolding st2_def by (rule commit_Inr) (rule st2_deposit)

lemma st2_views:
  "vaultCount st2 = 1" "balance_of st2 0 = 1000" "totalProposals_of st2 0 = 0"
  "\<not> hasProposal st2 0"
  by (simp_all add: view_defs vaultCount_def ZERO_def st2_eq st1_eq deployed_read st_defs key_simps ptr_defs)

lemma st2_owner_alice: "requireOwnerIdx (as_sender alice) st2 0 = Inr 0"
  by (simp add: requireOwnerIdx_def getOwnerCount_eq as_sender_def requireOwnerIdx_loop_hit
        st2_eq st1_eq deployed_read st_defs key_simps ptr_defs)

lemma st3_propose: "propose (as_sender alice) 0 dave 200 st2 = Inr (True, proposed st2 0 0 dave 200)"
  unfolding propose_Inr_iff
  by (simp add: st2_views st2_owner_alice dave_def)

lemma st3_eq: "st3 = proposed st2 0 0 dave 200"
  unfolding st3_def by (rule commit_Inr) (rule st3_propose)

lemma st3_vaultCount: "vaultCount st3 = 1"
  by (simp add: st3_eq proposed_def st2_eq st1_eq deployed_read vaultCount_def st_defs key_simps ptr_defs)

lemma st3_owner_bob: "requireOwnerIdx (as_sender bob) st3 0 = Inr 1"
  by (simp add: requireOwnerIdx_def getOwnerCount_eq as_sender_def requireOwnerIdx_loop_hit
        requireOwnerIdx_loop_miss who_defs hasProposal_def ZERO_def
        st3_eq proposed_def st2_eq st1_eq deployed_read st_defs key_simps ptr_defs)

lemma st3_views:
  "hasProposal st3 0" "approvals_of st3 0 = 1" "threshold_of st3 0 = 2"
  "propAmount_of st3 0 = 200" "balance_of st3 0 = 1000" "propTo_of st3 0 = dave"
  "approved st3 0 0" "\<not> approved st3 0 1" "\<not> approved st3 0 2"
  "totalProposals_of st3 0 = 1" "getOwnerCount st3 0 = 3"
  by (simp_all add: view_defs getOwnerCount_eq ZERO_def
        st3_eq proposed_def st2_eq st1_eq deployed_read st_defs key_simps ptr_defs)

lemma st4_approve:
  "approve (as_sender bob) 0 st3 =
     Inr (True, su (su st3 (idxKey pApproval 0 1) ONE) (fieldKey pPropApprovals 0) 2)"
  unfolding approve_Inr_iff
  by (simp add: st3_vaultCount st3_owner_bob st3_views)

lemma st4_eq: "st4 = su (su st3 (idxKey pApproval 0 1) ONE) (fieldKey pPropApprovals 0) 2"
  unfolding st4_def by (rule commit_Inr) (rule st4_approve)

lemma st4_views:
  "vaultCount st4 = 1"
  "hasProposal st4 0" "approvals_of st4 0 = 2" "threshold_of st4 0 = 2"
  "propAmount_of st4 0 = 200" "balance_of st4 0 = 1000" "propTo_of st4 0 = dave"
  "approved st4 0 0" "approved st4 0 1" "\<not> approved st4 0 2"
  "totalProposals_of st4 0 = 1" "getOwnerCount st4 0 = 3"
  by (simp_all add: view_defs getOwnerCount_eq ZERO_def ONE_def vaultCount_def
        st4_eq st3_eq proposed_def st2_eq st1_eq deployed_read st_defs key_simps ptr_defs)

lemma reachable_st1: "reachable st1"
  by (rule r_createVault [OF r_deployed st1_createVault])

lemma reachable_st2: "reachable st2"
  by (rule r_deposit [OF reachable_st1 st2_deposit [unfolded accepting_def, folded st2_eq]])

lemma reachable_st3: "reachable st3"
  by (rule r_propose [OF reachable_st2 st3_propose [folded st3_eq]])

lemma reachable_st4: "reachable st4"
  by (rule r_approve [OF reachable_st3 st4_approve [folded st4_eq]])

lemma card_approved_le: "card {i :: u8. P i} \<le> 256"
proof -
  have "card {i :: u8. P i} \<le> card (UNIV :: u8 set)"
    by (rule card_mono) simp_all
  then show ?thesis by (simp add: card_word)
qed

lemma reachable_approvals_small:
  assumes "reachable s" and "hasProposal s v"
  shows "unat (approvals_of s v) \<le> 256"
  using reachable_vault_ok [OF assms(1), of v] assms(2) card_approved_le [of "approved s v"]
  by (simp add: vault_ok_def)

lemma reachable_amount_le_balance:
  assumes "reachable s" and "hasProposal s v"
  shows "propAmount_of s v \<le> balance_of s v"
  using reachable_vault_ok [OF assms(1), of v] assms(2)
  by (simp add: vault_ok_def)

lemma SafeMath_sub_eq:
  "SafeMath_sub a b = (if a < b then Inl SafeMathUnderflow else Inr (a - b))"
  by (simp add: SafeMath_sub_def)

lemma SafeMath_add_eq:
  "SafeMath_add a b = (if unat a + unat b < 2 ^ 256 then Inr (a + b) else Inl SafeMathOverflow)"
  using SafeMath_add_Inr [of a b "a + b"] SafeMath_add_Inl [of a b SafeMathOverflow]
  by auto

lemma requireVault_eq:
  "requireVault s v = (if v < vaultCount s then Inr () else Inl (Revert ''vault not found''))"
  by (simp add: requireVault_def not_less)

lemma executeProposal_eq:
  "executeProposal X c v s =
     (if \<not> v < vaultCount s then Inl (Revert ''vault not found'')
      else if \<not> hasProposal s v then Inl (Revert ''no active proposal'')
      else if approvals_of s v < threshold_of s v then Inl (Revert ''threshold not met'')
      else if balance_of s v < propAmount_of s v then Inl SafeMathUnderflow
      else case X (Transfer (token_of s v) (propTo_of s v) (propAmount_of s v)) (settled s v) of
             None \<Rightarrow> Inl ExternalCallFailed
           | Some s3 \<Rightarrow> Inr (True, s3))"
  by (simp add: executeProposal_def Let_def requireVault_eq SafeMath_sub_eq settled_def
        hasProposal_def threshold_of_def approvals_of_def propAmount_of_def balance_of_def
        propTo_of_def token_of_def)

text \<open>
  Claim C8. The debit in \<^verbatim>\<open>executeProposal\<close> is a checked subtraction whose failure
  branch cannot be reached: in every reachable state, a vault with an active proposal
  holds at least the proposal's amount, so no run of \<^verbatim>\<open>executeProposal\<close> ends in the
  underflow revert; and the subtraction is a checked one: on a storage where the amount
  did exceed the balance, a call that passes the guards would revert there.
\<close>

theorem executeProposal_debit_never_underflows:
  "(reachable s \<longrightarrow> hasProposal s v \<longrightarrow>
      propAmount_of s v \<le> balance_of s v \<and> executeProposal X c v s \<noteq> Inl SafeMathUnderflow)
   \<and> (v < vaultCount s \<longrightarrow> hasProposal s v \<longrightarrow> threshold_of s v \<le> approvals_of s v \<longrightarrow>
        balance_of s v < propAmount_of s v \<longrightarrow> executeProposal X c v s = Inl SafeMathUnderflow)"
proof (intro conjI impI)
  assume r: "reachable s" and hp: "hasProposal s v"
  show "propAmount_of s v \<le> balance_of s v"
    by (rule reachable_amount_le_balance [OF r hp])
  then have "\<not> balance_of s v < propAmount_of s v"
    by (simp add: not_less)
  then show "executeProposal X c v s \<noteq> Inl SafeMathUnderflow"
    by (simp add: executeProposal_eq split: option.splits)
next
  assume "v < vaultCount s" "hasProposal s v" "threshold_of s v \<le> approvals_of s v"
    "balance_of s v < propAmount_of s v"
  then show "executeProposal X c v s = Inl SafeMathUnderflow"
    by (simp add: executeProposal_eq split: option.splits)
qed

lemma underwater_views:
  "vaultCount underwater = 1" "hasProposal underwater 0"
  "threshold_of underwater 0 = 0" "approvals_of underwater 0 = 0"
  "balance_of underwater 0 = 3" "propAmount_of underwater 0 = 5"
  by (simp_all add: underwater_def deployed_read view_defs vaultCount_def ZERO_def st_defs key_simps ptr_defs)

theorem executeProposal_debit_never_underflows_witness:
  "reachable st4 \<and> hasProposal st4 0
   \<and> propAmount_of st4 0 \<le> balance_of st4 0
   \<and> executeProposal accepting (as_sender carol) 0 st4 \<noteq> Inl SafeMathUnderflow
   \<and> 0 < vaultCount underwater \<and> hasProposal underwater 0
   \<and> threshold_of underwater 0 \<le> approvals_of underwater 0
   \<and> balance_of underwater 0 < propAmount_of underwater 0
   \<and> executeProposal accepting (as_sender carol) 0 underwater = Inl SafeMathUnderflow"
  using executeProposal_debit_never_underflows [of st4 0 accepting "as_sender carol"]
    executeProposal_debit_never_underflows [of underwater 0 accepting "as_sender carol"]
    reachable_st4
  by (simp add: st4_views underwater_views)

lemma getProposal_eq:
  "getProposal s v =
     (if \<not> v < vaultCount s then Inl (Revert ''vault not found'')
      else if \<not> hasProposal s v then Inl (Revert ''no active proposal'')
      else Inr (propTo_of s v, propAmount_of s v, approvals_of s v))"
  by (simp add: getProposal_def Let_def requireVault_eq view_defs)

lemma deposit_eq:
  "deposit X c v amt s =
     (if \<not> v < vaultCount s then Inl (Revert ''vault not found'')
      else if amt = 0 then Inl (Revert ''amount is zero'')
      else case X (TransferFrom (token_of s v) (sender c) (contractAddress c) amt) s of
             None \<Rightarrow> Inl ExternalCallFailed
           | Some s1 \<Rightarrow>
               if unat (balance_of s1 v) + unat amt < 2 ^ 256
               then Inr (True, su s1 (fieldKey pBalance v) (balance_of s1 v + amt))
               else Inl SafeMathOverflow)"
  by (simp add: deposit_def Let_def requireVault_eq SafeMath_add_eq ZERO_def token_of_def
        balance_of_def split: option.splits)

lemma approve_eq:
  "approve c v s =
     (if \<not> v < vaultCount s then Inl (Revert ''vault not found'')
      else case requireOwnerIdx c s v of
             Inl e \<Rightarrow> Inl e
           | Inr idx \<Rightarrow>
               if \<not> hasProposal s v then Inl (Revert ''no active proposal'')
               else if approved s v idx then Inl (Revert ''already approved'')
               else if unat (approvals_of s v) + 1 < 2 ^ 256
               then Inr (True, su (su s (idxKey pApproval v idx) ONE) (fieldKey pPropApprovals v)
                                (approvals_of s v + 1))
               else Inl SafeMathOverflow)"
proof -
  have cur: "\<And>idx. lu (su s (idxKey pApproval v idx) ONE) (fieldKey pPropApprovals v)
      = approvals_of s v"
    by (simp add: approvals_of_def st_defs key_simps ptr_defs)
  show ?thesis
    unfolding approve_def Let_def cur
    by (simp add: requireVault_eq SafeMath_add_eq hasProposal_def approved_def ONE_def ZERO_def
        split: sum.splits)
qed

lemma propose_eq:
  "propose c v to amt s =
     (if \<not> v < vaultCount s then Inl (Revert ''vault not found'')
      else case requireOwnerIdx c s v of
             Inl e \<Rightarrow> Inl e
           | Inr idx \<Rightarrow>
               if amt = 0 then Inl (Revert ''amount is zero'')
               else if to = 0 then Inl (Revert ''zero recipient'')
               else if balance_of s v < amt then Inl (Revert ''insufficient balance'')
               else if unat (totalProposals_of s v) + 1 < 2 ^ 256
               then Inr (True, proposed s v idx to amt)
               else Inl SafeMathOverflow)"
  unfolding propose_def Let_def propose_total propose_writes
  by (simp add: requireVault_eq SafeMath_add_eq balance_of_def ZERO_def ONE_def
        proposed_total_upd split: sum.splits)

lemma settled_views:
  "vaultCount (settled s v) = vaultCount s"
  "\<not> hasProposal (settled s v) v"
  "balance_of (settled s v) v = balance_of s v - propAmount_of s v"
  "propTo_of (settled s v) v = 0"
  "propAmount_of (settled s v) v = 0"
  "approvals_of (settled s v) v = 0"
  "threshold_of (settled s v) v = threshold_of s v"
  "token_of (settled s v) v = token_of s v"
  "totalProposals_of (settled s v) v = totalProposals_of s v"
  "getOwnerCount (settled s v) v = getOwnerCount s v"
  by (simp_all add: view_defs token_of_def vaultCount_def getOwnerCount_eq ZERO_def st_defs
        settled_read key_simps ptr_defs)

lemma settled_flags: "i < getOwnerCount s v \<Longrightarrow> \<not> approved (settled s v) v i"
  by (auto simp add: approved_def ZERO_def st_defs settled_read key_simps ptr_defs)

text \<open>
  Claim C1. For a vault with an active proposal, in any reachable state:
  \<^verbatim>\<open>executeProposal\<close> fails with ``threshold not met'' whenever the approvals are
  below the threshold, and the call leaves the storage as it was (balance, active flag and
  every proposal field with it). Whenever the approvals reach the threshold and the asset
  contract accepts the transfer, the call succeeds, the balance is the old one minus
  exactly the proposal's amount, no proposal is active, and \<^verbatim>\<open>getProposal\<close> then fails
  with ``no active proposal''.
\<close>

theorem executeProposal_quorum_gated:
  assumes "reachable s" and "v < vaultCount s" and "hasProposal s v"
  shows "(approvals_of s v < threshold_of s v \<longrightarrow>
            executeProposal X c v s = Inl (Revert ''threshold not met'')
            \<and> commit s (executeProposal X c v s) = s)
       \<and> (threshold_of s v \<le> approvals_of s v \<longrightarrow>
            ok (Transfer (token_of s v) (propTo_of s v) (propAmount_of s v)) \<longrightarrow>
            (\<exists>s'. executeProposal (inert ok) c v s = Inr (True, s')
               \<and> unat (balance_of s' v) + unat (propAmount_of s v) = unat (balance_of s v)
               \<and> \<not> hasProposal s' v
               \<and> getProposal s' v = Inl (Revert ''no active proposal'')))"
proof (intro conjI impI)
  assume lt: "approvals_of s v < threshold_of s v"
  then show "executeProposal X c v s = Inl (Revert ''threshold not met'')"
    using assms by (simp add: executeProposal_eq)
  then show "commit s (executeProposal X c v s) = s"
    by (rule commit_Inl)
next
  assume ge: "threshold_of s v \<le> approvals_of s v"
    and ok: "ok (Transfer (token_of s v) (propTo_of s v) (propAmount_of s v))"
  have le: "propAmount_of s v \<le> balance_of s v"
    by (rule reachable_amount_le_balance [OF assms(1,3)])
  have run: "executeProposal (inert ok) c v s = Inr (True, settled s v)"
    using assms ge ok le by (simp add: executeProposal_eq inert_def not_less [symmetric])
  have "unat (balance_of s v - propAmount_of s v) = unat (balance_of s v) - unat (propAmount_of s v)"
    using le by (simp add: unat_sub)
  moreover have "unat (propAmount_of s v) \<le> unat (balance_of s v)"
    using le by (simp add: word_le_nat_alt)
  ultimately have bal: "unat (balance_of (settled s v) v) + unat (propAmount_of s v)
      = unat (balance_of s v)"
    by (simp add: settled_views)
  have gp: "getProposal (settled s v) v = Inl (Revert ''no active proposal'')"
    using assms(2) by (simp add: getProposal_eq settled_views)
  from run bal gp settled_views(2) [of s v]
  show "\<exists>s'. executeProposal (inert ok) c v s = Inr (True, s')
               \<and> unat (balance_of s' v) + unat (propAmount_of s v) = unat (balance_of s v)
               \<and> \<not> hasProposal s' v
               \<and> getProposal s' v = Inl (Revert ''no active proposal'')"
    by blast
qed

lemma st3_token: "token_of st3 0 = asset"
  by (simp add: token_of_def st3_eq proposed_def st2_eq st1_eq deployed_read st_defs key_simps ptr_defs)

lemma st4_token: "token_of st4 0 = asset"
  by (simp add: token_of_def st4_eq st3_eq proposed_def st2_eq st1_eq deployed_read st_defs key_simps ptr_defs)

theorem executeProposal_quorum_gated_witness:
  "reachable st3 \<and> 0 < vaultCount st3 \<and> hasProposal st3 0
   \<and> approvals_of st3 0 < threshold_of st3 0
   \<and> executeProposal accepting (as_sender carol) 0 st3 = Inl (Revert ''threshold not met'')
   \<and> reachable st4 \<and> 0 < vaultCount st4 \<and> hasProposal st4 0
   \<and> threshold_of st4 0 \<le> approvals_of st4 0
   \<and> (\<exists>s'. executeProposal accepting (as_sender carol) 0 st4 = Inr (True, s')
         \<and> unat (balance_of s' 0) + 200 = 1000
         \<and> \<not> hasProposal s' 0
         \<and> getProposal s' 0 = Inl (Revert ''no active proposal''))"
  using executeProposal_quorum_gated [OF reachable_st3, of 0 accepting "as_sender carol" "\<lambda>c. True"]
    executeProposal_quorum_gated [OF reachable_st4, of 0 accepting "as_sender carol" "\<lambda>c. True"]
    reachable_st3 reachable_st4
  by (simp add: st3_views st3_vaultCount st4_views accepting_def)

text \<open>
  Claim C2. In every successful run of \<^verbatim>\<open>executeProposal\<close>, whatever the asset contract
  does, the transfer to the recipient is invoked on a storage \<open>s1\<close> in which the balance is
  already debited by the proposal's amount and the proposal is already cleared (recipient,
  amount, approvals, the approval flag of every owner slot, and the active flag). The call
  is made on that storage and on no other: for every asset contract the method is the
  guards, then the transfer called on \<open>s1\<close>, and its result is the storage the transfer
  returns; nothing is written after the call.
\<close>

theorem executeProposal_settles_before_transfer:
  assumes "executeProposal X c v s = Inr (r, s')"
  shows "\<exists>s1. X (Transfer (token_of s v) (propTo_of s v) (propAmount_of s v)) s1 = Some s'
     \<and> (\<forall>X'. executeProposal X' c v s =
           (case X' (Transfer (token_of s v) (propTo_of s v) (propAmount_of s v)) s1 of
              None \<Rightarrow> Inl ExternalCallFailed
            | Some s3 \<Rightarrow> Inr (True, s3)))
     \<and> unat (balance_of s1 v) + unat (propAmount_of s v) = unat (balance_of s v)
     \<and> \<not> hasProposal s1 v
     \<and> propTo_of s1 v = 0 \<and> propAmount_of s1 v = 0 \<and> approvals_of s1 v = 0
     \<and> (\<forall>i. i < getOwnerCount s v \<longrightarrow> \<not> approved s1 v i)"
proof -
  from assms have ex: "v < vaultCount s" and hp: "hasProposal s v"
    and ge: "threshold_of s v \<le> approvals_of s v"
    and le: "propAmount_of s v \<le> balance_of s v"
    and call: "X (Transfer (token_of s v) (propTo_of s v) (propAmount_of s v)) (settled s v) = Some s'"
    unfolding executeProposal_Inr_iff token_of_def by simp_all
  have any: "\<forall>X'. executeProposal X' c v s =
           (case X' (Transfer (token_of s v) (propTo_of s v) (propAmount_of s v)) (settled s v) of
              None \<Rightarrow> Inl ExternalCallFailed
            | Some s3 \<Rightarrow> Inr (True, s3))"
    using ex hp ge le by (simp add: executeProposal_eq not_less [symmetric])
  have "unat (balance_of s v - propAmount_of s v) = unat (balance_of s v) - unat (propAmount_of s v)"
    using le by (simp add: unat_sub)
  moreover have "unat (propAmount_of s v) \<le> unat (balance_of s v)"
    using le by (simp add: word_le_nat_alt)
  ultimately have bal: "unat (balance_of (settled s v) v) + unat (propAmount_of s v)
      = unat (balance_of s v)"
    by (simp add: settled_views)
  have fl: "\<forall>i. i < getOwnerCount s v \<longrightarrow> \<not> approved (settled s v) v i"
    by (simp add: settled_flags)
  from call any bal fl settled_views(2,4,5,6) [of s v] show ?thesis
    by blast
qed

theorem executeProposal_settles_before_transfer_witness:
  "\<exists>r s'. executeProposal accepting (as_sender carol) 0 st4 = Inr (r, s')
     \<and> (\<exists>s1. accepting (Transfer (token_of st4 0) (propTo_of st4 0) (propAmount_of st4 0)) s1 = Some s'
          \<and> unat (balance_of s1 0) + 200 = 1000
          \<and> \<not> hasProposal s1 0
          \<and> propTo_of s1 0 = 0 \<and> propAmount_of s1 0 = 0 \<and> approvals_of s1 0 = 0
          \<and> \<not> approved s1 0 0 \<and> \<not> approved s1 0 1 \<and> \<not> approved s1 0 2)"
proof -
  have run: "executeProposal accepting (as_sender carol) 0 st4 = Inr (True, settled st4 0)"
    by (simp add: executeProposal_eq st4_views accepting_def inert_def)
  from executeProposal_settles_before_transfer [OF run] obtain s1 where
    call: "accepting (Transfer (token_of st4 0) (propTo_of st4 0) (propAmount_of st4 0)) s1
             = Some (settled st4 0)"
    and bal: "unat (balance_of s1 0) + unat (propAmount_of st4 0) = unat (balance_of st4 0)"
    and clr: "\<not> hasProposal s1 0" "propTo_of s1 0 = 0" "propAmount_of s1 0 = 0"
      "approvals_of s1 0 = 0"
    and fl: "\<forall>i. i < getOwnerCount st4 0 \<longrightarrow> \<not> approved s1 0 i"
    by blast
  have "\<not> approved s1 0 0" "\<not> approved s1 0 1" "\<not> approved s1 0 2"
    using fl by (simp_all add: st4_views)
  moreover have "unat (balance_of s1 0) + 200 = 1000"
    using bal by (simp add: st4_views)
  ultimately show ?thesis
    using run call clr by blast
qed

text \<open>
  Claim C10. \<^verbatim>\<open>deposit\<close> adds to the balance with a checked 256-bit addition. For an
  existing vault and a non-zero amount: if balance + amount fits in 256 bits and the asset
  contract accepts the pull transfer, the call succeeds and the new balance is exactly
  balance + amount; if balance + amount does not fit, the call fails (with the overflow
  revert once the transfer is accepted) and the balance is as before: the sum never wraps.
\<close>

theorem deposit_checked_addition:
  assumes "v < vaultCount s" and "amount \<noteq> 0"
  shows "(unat (balance_of s v) + unat amount < 2 ^ 256 \<longrightarrow>
            ok (TransferFrom (token_of s v) (sender c) (contractAddress c) amount) \<longrightarrow>
            (\<exists>s'. deposit (inert ok) c v amount s = Inr (True, s')
               \<and> unat (balance_of s' v) = unat (balance_of s v) + unat amount))
       \<and> (2 ^ 256 \<le> unat (balance_of s v) + unat amount \<longrightarrow>
            (\<exists>e. deposit (inert ok) c v amount s = Inl e)
            \<and> (ok (TransferFrom (token_of s v) (sender c) (contractAddress c) amount) \<longrightarrow>
                 deposit (inert ok) c v amount s = Inl SafeMathOverflow)
            \<and> balance_of (commit s (deposit (inert ok) c v amount s)) v = balance_of s v)"
proof (intro conjI impI)
  assume fits: "unat (balance_of s v) + unat amount < 2 ^ 256"
    and ok: "ok (TransferFrom (token_of s v) (sender c) (contractAddress c) amount)"
  have run: "deposit (inert ok) c v amount s
      = Inr (True, su s (fieldKey pBalance v) (balance_of s v + amount))"
    using assms fits ok by (simp add: deposit_eq inert_def)
  have "balance_of (su s (fieldKey pBalance v) (balance_of s v + amount)) v
      = balance_of s v + amount"
    by (simp add: balance_of_def st_defs)
  moreover have "unat (balance_of s v + amount) = unat (balance_of s v) + unat amount"
    using fits by (simp add: unat_add_lem [THEN iffD1])
  ultimately show "\<exists>s'. deposit (inert ok) c v amount s = Inr (True, s')
               \<and> unat (balance_of s' v) = unat (balance_of s v) + unat amount"
    using run by simp
next
  assume over: "2 ^ 256 \<le> unat (balance_of s v) + unat amount"
  then have nf: "\<not> unat (balance_of s v) + unat amount < 2 ^ 256"
    by simp
  show e: "\<exists>e. deposit (inert ok) c v amount s = Inl e"
    using assms nf by (simp add: deposit_eq inert_def)
  then show "balance_of (commit s (deposit (inert ok) c v amount s)) v = balance_of s v"
    by (auto simp: commit_def)
  assume "ok (TransferFrom (token_of s v) (sender c) (contractAddress c) amount)"
  then show "deposit (inert ok) c v amount s = Inl SafeMathOverflow"
    using assms nf by (simp add: deposit_eq inert_def)
qed

lemma unat_max_u256: "unat (- 1 :: u256) = 2 ^ 256 - 1"
  by (simp add: unsigned_minus_1_eq_mask mask_eq_exp_minus_1)

lemma st1_token: "token_of st1 0 = asset"
  by (simp add: token_of_def st1_views)

lemma brimful_eq: "brimful = su st1 (fieldKey pBalance 0) (- 1)"
  unfolding brimful_def
  by (rule commit_Inr [where r = True])
     (simp add: deposit_eq st1_vaultCount st1_views accepting_def inert_def unat_max_u256)

lemma brimful_views: "vaultCount brimful = 1" "balance_of brimful 0 = - 1"
  by (simp_all add: brimful_eq st1_eq deployed_read view_defs vaultCount_def st_defs key_simps ptr_defs)

theorem deposit_checked_addition_witness:
  "0 < vaultCount st1 \<and> (1000 :: u256) \<noteq> 0
   \<and> unat (balance_of st1 0) + unat (1000 :: u256) < 2 ^ 256
   \<and> (\<exists>s'. deposit accepting (as_sender alice) 0 1000 st1 = Inr (True, s')
         \<and> unat (balance_of s' 0) = 1000)
   \<and> 0 < vaultCount brimful \<and> (1 :: u256) \<noteq> 0
   \<and> 2 ^ 256 \<le> unat (balance_of brimful 0) + unat (1 :: u256)
   \<and> deposit accepting (as_sender bob) 0 1 brimful = Inl SafeMathOverflow
   \<and> balance_of (commit brimful (deposit accepting (as_sender bob) 0 1 brimful)) 0
       = balance_of brimful 0"
  using deposit_checked_addition [of 0 st1 1000 "\<lambda>c. True" "as_sender alice"]
    deposit_checked_addition [of 0 brimful 1 "\<lambda>c. True" "as_sender bob"]
  by (simp add: st1_vaultCount st1_views brimful_views unat_max_u256 accepting_def commit_def)

text \<open>
  Claim C7. For a vault with an active proposal and a sender who is one of its owners
  (the scan of \<^verbatim>\<open>requireOwnerIdx\<close> finds the sender in slot \<open>idx\<close>), in any reachable
  state: if the flag of that slot is not set, \<^verbatim>\<open>approve\<close> succeeds, sets it, leaves every
  other flag as it was and increments the approvals by exactly 1; if it is set (the
  proposer's own flag is, from the proposal's creation), \<^verbatim>\<open>approve\<close> fails with
  ``already approved'' and the storage, approvals and flags included, stays as it was.
\<close>

theorem approve_once_per_owner:
  assumes "reachable s" and "v < vaultCount s" and "hasProposal s v"
    and "requireOwnerIdx c s v = Inr idx"
  shows "(\<not> approved s v idx \<longrightarrow>
            (\<exists>s'. approve c v s = Inr (True, s')
               \<and> approved s' v idx
               \<and> (\<forall>i. i \<noteq> idx \<longrightarrow> approved s' v i = approved s v i)
               \<and> unat (approvals_of s' v) = unat (approvals_of s v) + 1))
       \<and> (approved s v idx \<longrightarrow>
            approve c v s = Inl (Revert ''already approved'')
            \<and> commit s (approve c v s) = s)"
proof (intro conjI impI)
  assume na: "\<not> approved s v idx"
  have small: "unat (approvals_of s v) + 1 < 2 ^ 256"
    using reachable_approvals_small [OF assms(1,3)] by simp
  define s' where "s' = su (su s (idxKey pApproval v idx) ONE) (fieldKey pPropApprovals v)
                                (approvals_of s v + 1)"
  have run: "approve c v s = Inr (True, s')"
    using assms na small by (simp add: approve_eq s'_def)
  have a: "approved s' v idx"
    by (simp add: s'_def approved_def st_defs key_simps ptr_defs ONE_def ZERO_def)
  have b: "\<forall>i. i \<noteq> idx \<longrightarrow> approved s' v i = approved s v i"
    by (simp add: s'_def approved_def st_defs key_simps ptr_defs)
  have "approvals_of s' v = approvals_of s v + 1"
    by (simp add: s'_def approvals_of_def st_defs key_simps ptr_defs)
  moreover have "unat (approvals_of s v + 1) = unat (approvals_of s v) + unat (1 :: u256)"
    using small by (subst unat_add_lem [THEN iffD1]) simp_all
  ultimately have c: "unat (approvals_of s' v) = unat (approvals_of s v) + 1"
    by simp
  from run a b c
  show "\<exists>s'. approve c v s = Inr (True, s')
               \<and> approved s' v idx
               \<and> (\<forall>i. i \<noteq> idx \<longrightarrow> approved s' v i = approved s v i)
               \<and> unat (approvals_of s' v) = unat (approvals_of s v) + 1"
    by blast
next
  assume "approved s v idx"
  then show "approve c v s = Inl (Revert ''already approved'')"
    using assms by (simp add: approve_eq)
  then show "commit s (approve c v s) = s"
    by (rule commit_Inl)
qed

lemma st3_owner_alice: "requireOwnerIdx (as_sender alice) st3 0 = Inr 0"
  by (simp add: requireOwnerIdx_def getOwnerCount_eq as_sender_def requireOwnerIdx_loop_hit
        st3_eq proposed_def st2_eq st1_eq deployed_read st_defs key_simps ptr_defs)

theorem approve_once_per_owner_witness:
  "reachable st3 \<and> 0 < vaultCount st3 \<and> hasProposal st3 0
   \<and> requireOwnerIdx (as_sender bob) st3 0 = Inr 1 \<and> \<not> approved st3 0 1
   \<and> (\<exists>s'. approve (as_sender bob) 0 st3 = Inr (True, s')
          \<and> approved s' 0 1 \<and> approved s' 0 0 \<and> \<not> approved s' 0 2
          \<and> unat (approvals_of s' 0) = 2)
   \<and> requireOwnerIdx (as_sender alice) st3 0 = Inr 0 \<and> approved st3 0 0
   \<and> approve (as_sender alice) 0 st3 = Inl (Revert ''already approved'')
   \<and> commit st3 (approve (as_sender alice) 0 st3) = st3"
proof -
  have v: "(0 :: u256) < vaultCount st3"
    by (simp add: st3_vaultCount)
  from approve_once_per_owner [OF reachable_st3 v st3_views(1) st3_owner_bob] st3_views(8)
  obtain s' where "approve (as_sender bob) 0 st3 = Inr (True, s')" "approved s' 0 1"
    "\<forall>i. i \<noteq> 1 \<longrightarrow> approved s' 0 i = approved st3 0 i"
    "unat (approvals_of s' 0) = unat (approvals_of st3 0) + 1"
    by blast
  then have bob: "\<exists>s'. approve (as_sender bob) 0 st3 = Inr (True, s')
          \<and> approved s' 0 1 \<and> approved s' 0 0 \<and> \<not> approved s' 0 2
          \<and> unat (approvals_of s' 0) = 2"
    by (simp add: st3_views)
  from approve_once_per_owner [OF reachable_st3 v st3_views(1) st3_owner_alice] st3_views(7)
  have "approve (as_sender alice) 0 st3 = Inl (Revert ''already approved'')"
    "commit st3 (approve (as_sender alice) 0 st3) = st3"
    by (simp_all add: commit_def)
  with bob reachable_st3 v st3_views st3_owner_bob st3_owner_alice show ?thesis
    by simp
qed

lemma proposed_views:
  "vaultCount (proposed s v idx to amt) = vaultCount s"
  "hasProposal (proposed s v idx to amt) v"
  "propTo_of (proposed s v idx to amt) v = to"
  "propAmount_of (proposed s v idx to amt) v = amt"
  "approvals_of (proposed s v idx to amt) v = 1"
  "totalProposals_of (proposed s v idx to amt) v = totalProposals_of s v + 1"
  "balance_of (proposed s v idx to amt) v = balance_of s v"
  "threshold_of (proposed s v idx to amt) v = threshold_of s v"
  "getOwnerCount (proposed s v idx to amt) v = getOwnerCount s v"
  by (simp_all add: view_defs vaultCount_def getOwnerCount_eq ZERO_def st_defs
        proposed_def key_simps ptr_defs)

lemma proposed_flags:
  "approved (proposed s v idx to amt) v i \<longleftrightarrow>
     i = idx \<or> (approved s v i \<and> \<not> (hasProposal s v \<and> i < getOwnerCount s v))"
  by (auto simp add: approved_def hasProposal_def ZERO_def st_defs proposed_def key_simps ptr_defs)

lemma propose_replaced:
  assumes "propose c v to amount s = Inr (r, s')"
  shows "getProposal s' v = Inr (to, amount, 1)
       \<and> unat (totalProposals_of s' v) = unat (totalProposals_of s v) + 1
       \<and> (\<exists>idx. requireOwnerIdx c s v = Inr idx
             \<and> (hasProposal s v \<longrightarrow>
                   (\<forall>i. i < getOwnerCount s v \<longrightarrow> (approved s' v i \<longleftrightarrow> i = idx))))"
proof -
  from assms obtain idx where ex: "v < vaultCount s" and own: "requireOwnerIdx c s v = Inr idx"
    and fits: "unat (totalProposals_of s v) + 1 < 2 ^ 256"
    and s': "s' = proposed s v idx to amount"
    unfolding propose_Inr_iff by blast
  have gp: "getProposal s' v = Inr (to, amount, 1)"
    using ex by (simp add: s' getProposal_eq proposed_views)
  have "unat (totalProposals_of s v + 1) = unat (totalProposals_of s v) + unat (1 :: u256)"
    using fits by (subst unat_add_lem [THEN iffD1]) simp_all
  then have tot: "unat (totalProposals_of s' v) = unat (totalProposals_of s v) + 1"
    by (simp add: s' proposed_views)
  have fl: "hasProposal s v \<longrightarrow>
      (\<forall>i. i < getOwnerCount s v \<longrightarrow> (approved s' v i \<longleftrightarrow> i = idx))"
    by (simp add: s' proposed_flags)
  from gp tot own fl show ?thesis by blast
qed

text \<open>
  Claim C4. A successful \<^verbatim>\<open>propose\<close> on a vault with an active proposal replaces it
  whole: \<^verbatim>\<open>getProposal\<close> then returns the new recipient, the new amount and 1 approval,
  the approval flag of every owner slot is unset except the proposer's, and the lifetime
  counter \<^verbatim>\<open>totalProposals\<close> is the old one plus exactly 1 (as after every successful
  \<^verbatim>\<open>propose\<close>, replacing or not).
\<close>

theorem propose_replaces_cleanly:
  assumes "propose c v to amount s = Inr (r, s')"
  shows "unat (totalProposals_of s' v) = unat (totalProposals_of s v) + 1
       \<and> (hasProposal s v \<longrightarrow>
            getProposal s' v = Inr (to, amount, 1)
            \<and> (\<exists>idx. requireOwnerIdx c s v = Inr idx
                  \<and> (\<forall>i. i < getOwnerCount s v \<longrightarrow> (approved s' v i \<longleftrightarrow> i = idx))))"
  using propose_replaced [OF assms] by blast

lemma st4_owner_bob: "requireOwnerIdx (as_sender bob) st4 0 = Inr 1"
  by (simp add: requireOwnerIdx_def getOwnerCount_eq as_sender_def requireOwnerIdx_loop_hit
        requireOwnerIdx_loop_miss who_defs hasProposal_def ZERO_def
        st4_eq st3_eq proposed_def st2_eq st1_eq deployed_read st_defs key_simps ptr_defs)

lemma st4_propose:
  "propose (as_sender bob) 0 erin 50 st4 = Inr (True, proposed st4 0 1 erin 50)"
  by (simp add: propose_eq st4_views st4_owner_bob erin_def)

theorem propose_replaces_cleanly_witness:
  "hasProposal st4 0 \<and> propTo_of st4 0 = dave \<and> propAmount_of st4 0 = 200
   \<and> approvals_of st4 0 = 2 \<and> approved st4 0 0
   \<and> requireOwnerIdx (as_sender bob) st4 0 = Inr 1
   \<and> (\<exists>s'. propose (as_sender bob) 0 erin 50 st4 = Inr (True, s')
          \<and> unat (totalProposals_of s' 0) = 2
          \<and> getProposal s' 0 = Inr (erin, 50, 1)
          \<and> \<not> approved s' 0 0 \<and> approved s' 0 1 \<and> \<not> approved s' 0 2)"
proof -
  from propose_replaces_cleanly [OF st4_propose] st4_views(2) st4_owner_bob
  have "unat (totalProposals_of (proposed st4 0 1 erin 50) 0) = unat (totalProposals_of st4 0) + 1"
    and "getProposal (proposed st4 0 1 erin 50) 0 = Inr (erin, 50, 1)"
    and "\<forall>i. i < getOwnerCount st4 0 \<longrightarrow> (approved (proposed st4 0 1 erin 50) 0 i \<longleftrightarrow> i = 1)"
    by auto
  then have "unat (totalProposals_of (proposed st4 0 1 erin 50) 0) = 2"
    and "getProposal (proposed st4 0 1 erin 50) 0 = Inr (erin, 50, 1)"
    and "\<not> approved (proposed st4 0 1 erin 50) 0 0" and "approved (proposed st4 0 1 erin 50) 0 1"
    and "\<not> approved (proposed st4 0 1 erin 50) 0 2"
    by (simp_all add: st4_views)
  with st4_propose st4_views st4_owner_bob show ?thesis
    by blast
qed

lemma propose_same_outside_slot:
  assumes "\<forall>k. k \<notin> proposal_slot v \<longrightarrow> s2 k = s k"
  shows "vaultCount s2 = vaultCount s" "requireOwnerIdx c s2 v = requireOwnerIdx c s v"
    "balance_of s2 v = balance_of s v" "totalProposals_of s2 v = totalProposals_of s v"
proof -
  have out: "vaultCountKey \<notin> proposal_slot v" "fieldKey pBalance v \<notin> proposal_slot v"
    "fieldKey pTotalProposals v \<notin> proposal_slot v" "fieldKey pOwnerCount v \<notin> proposal_slot v"
    "\<And>j. idxKey pOwner v j \<notin> proposal_slot v"
    by (simp_all add: proposal_slot_def key_simps ptr_defs)
  show "vaultCount s2 = vaultCount s" "balance_of s2 v = balance_of s v"
    "totalProposals_of s2 v = totalProposals_of s v"
    using assms out by (simp_all add: vaultCount_def view_defs st_defs)
  show "requireOwnerIdx c s2 v = requireOwnerIdx c s v"
    using assms out by (intro requireOwnerIdx_cong) (simp_all add: getOwnerCount_eq st_defs)
qed

text \<open>
  Claim C9. \<^verbatim>\<open>propose\<close> checks neither who proposed the active proposal nor how many
  approvals it has. Whether the call succeeds, and with which error it fails, is the
  same on any two storages that differ only in the proposal slot of the vault (recipient,
  amount, approval count, and the approval flags, the proposer's among them): it succeeds
  exactly when the vault exists, the sender is one of its owners, amount and recipient are
  non-zero, the amount is within the balance and the lifetime counter can still be
  incremented. When it succeeds on an active proposal, at quorum or not, that proposal and
  all its votes are gone: \<^verbatim>\<open>getProposal\<close> returns the new proposal with 1 approval, and
  of the owner slots only the sender's has its flag set.
\<close>

theorem propose_ignores_current_proposal:
  assumes "\<forall>k. k \<notin> proposal_slot v \<longrightarrow> s2 k = s k"
  shows "(propose c v to amount s2 = Inl e \<longleftrightarrow> propose c v to amount s = Inl e)
       \<and> ((\<exists>r s'. propose c v to amount s2 = Inr (r, s'))
            \<longleftrightarrow> (\<exists>r s'. propose c v to amount s = Inr (r, s')))
       \<and> ((\<exists>r s'. propose c v to amount s = Inr (r, s')) \<longleftrightarrow>
             v < vaultCount s \<and> (\<exists>idx. requireOwnerIdx c s v = Inr idx)
             \<and> amount \<noteq> 0 \<and> to \<noteq> 0 \<and> amount \<le> balance_of s v
             \<and> unat (totalProposals_of s v) + 1 < 2 ^ 256)
       \<and> (\<forall>r s'. propose c v to amount s = Inr (r, s') \<longrightarrow> hasProposal s v \<longrightarrow>
             getProposal s' v = Inr (to, amount, 1)
             \<and> (\<exists>idx. requireOwnerIdx c s v = Inr idx
                   \<and> (\<forall>i. i < getOwnerCount s v \<longrightarrow> (approved s' v i \<longleftrightarrow> i = idx))))"
proof -
  note same = propose_same_outside_slot [OF assms]
  have a: "propose c v to amount s2 = Inl e \<longleftrightarrow> propose c v to amount s = Inl e"
    by (simp add: propose_eq same split: sum.splits)
  have b: "(\<exists>r s'. propose c v to amount s2 = Inr (r, s'))
            \<longleftrightarrow> (\<exists>r s'. propose c v to amount s = Inr (r, s'))"
    by (simp add: propose_eq same split: sum.splits)
  have c: "(\<exists>r s'. propose c v to amount s = Inr (r, s')) \<longleftrightarrow>
             v < vaultCount s \<and> (\<exists>idx. requireOwnerIdx c s v = Inr idx)
             \<and> amount \<noteq> 0 \<and> to \<noteq> 0 \<and> amount \<le> balance_of s v
             \<and> unat (totalProposals_of s v) + 1 < 2 ^ 256"
    unfolding propose_Inr_iff by blast
  have d: "\<forall>r s'. propose c v to amount s = Inr (r, s') \<longrightarrow> hasProposal s v \<longrightarrow>
             getProposal s' v = Inr (to, amount, 1)
             \<and> (\<exists>idx. requireOwnerIdx c s v = Inr idx
                   \<and> (\<forall>i. i < getOwnerCount s v \<longrightarrow> (approved s' v i \<longleftrightarrow> i = idx)))"
    using propose_replaced by blast
  from a b c d show ?thesis by blast
qed

lemma st3_st4_same_outside_slot: "\<forall>k. k \<notin> proposal_slot 0 \<longrightarrow> st3 k = st4 k"
  by (auto simp add: st4_eq proposal_slot_def st_defs)

lemma st4_not_owner_dave: "requireOwnerIdx (as_sender dave) st4 0 = Inl (Revert ''not an owner'')"
  by (simp add: requireOwnerIdx_def getOwnerCount_eq as_sender_def requireOwnerIdx_loop_stop
        requireOwnerIdx_loop_miss who_defs hasProposal_def ZERO_def
        st4_eq st3_eq proposed_def st2_eq st1_eq deployed_read st_defs key_simps ptr_defs)

theorem propose_ignores_current_proposal_witness:
  "st4 = su (su st3 (idxKey pApproval 0 1) ONE) (fieldKey pPropApprovals 0) 2
   \<and> idxKey pApproval 0 1 \<in> proposal_slot 0 \<and> fieldKey pPropApprovals 0 \<in> proposal_slot 0
   \<and> hasProposal st4 0 \<and> threshold_of st4 0 \<le> approvals_of st4 0 \<and> approved st4 0 0
   \<and> approvals_of st3 0 < threshold_of st3 0
   \<and> requireOwnerIdx (as_sender bob) st4 0 = Inr 1
   \<and> (\<exists>r s'. propose (as_sender bob) 0 erin 50 st4 = Inr (r, s')
          \<and> getProposal s' 0 = Inr (erin, 50, 1)
          \<and> \<not> approved s' 0 0 \<and> approved s' 0 1 \<and> \<not> approved s' 0 2)
   \<and> (\<exists>r s'. propose (as_sender bob) 0 erin 50 st3 = Inr (r, s'))
   \<and> propose (as_sender dave) 0 erin 50 st4 = Inl (Revert ''not an owner'')
   \<and> propose (as_sender dave) 0 erin 50 st3 = Inl (Revert ''not an owner'')"
proof -
  note inst = propose_ignores_current_proposal [OF st3_st4_same_outside_slot]
  have fail4: "propose (as_sender dave) 0 erin 50 st4 = Inl (Revert ''not an owner'')"
    by (simp add: propose_eq st4_views st4_not_owner_dave)
  with inst [of "as_sender dave" erin 50 "Revert ''not an owner''"]
  have fail3: "propose (as_sender dave) 0 erin 50 st3 = Inl (Revert ''not an owner'')"
    by blast
  from inst [of "as_sender bob" erin 50] st4_propose
  have ok3: "\<exists>r s'. propose (as_sender bob) 0 erin 50 st3 = Inr (r, s')"
    by blast
  from inst [of "as_sender bob" erin 50] st4_propose st4_views(2) st4_owner_bob
  have "getProposal (proposed st4 0 1 erin 50) 0 = Inr (erin, 50, 1)"
    and "\<forall>i. i < getOwnerCount st4 0 \<longrightarrow> (approved (proposed st4 0 1 erin 50) 0 i \<longleftrightarrow> i = 1)"
    by auto
  then have "getProposal (proposed st4 0 1 erin 50) 0 = Inr (erin, 50, 1)"
    and "\<not> approved (proposed st4 0 1 erin 50) 0 0" and "approved (proposed st4 0 1 erin 50) 0 1"
    and "\<not> approved (proposed st4 0 1 erin 50) 0 2"
    by (simp_all add: st4_views)
  with st4_propose
  have ok4: "\<exists>r s'. propose (as_sender bob) 0 erin 50 st4 = Inr (r, s')
          \<and> getProposal s' 0 = Inr (erin, 50, 1)
          \<and> \<not> approved s' 0 0 \<and> approved s' 0 1 \<and> \<not> approved s' 0 2"
    by blast
  have slot: "idxKey pApproval 0 1 \<in> proposal_slot 0" "fieldKey pPropApprovals 0 \<in> proposal_slot 0"
    by (auto simp add: proposal_slot_def)
  from st4_eq slot st4_views st3_views st4_owner_bob ok4 ok3 fail4 fail3
  show ?thesis
    by simp
qed

lemma ucast_u8_u32_u256_direct: "(ucast (ucast (n :: u8) :: u32) :: u256) = ucast n"
  by (rule bit_eqI) (auto simp add: bit_ucast_iff dest: bit_imp_le_length)

lemma createVault_eq:
  "createVault tok n cd t s =
     (if n < 2 then Inl (Revert ''min 2 owners'')
      else if 10 < n then Inl (Revert ''max 10 owners'')
      else case createVault_loop s (vaultCount s) n cd [] 0 of
             Inl e \<Rightarrow> Inl e
           | Inr s1 \<Rightarrow>
               if t < 2 then Inl (Revert ''min threshold 2'')
               else if n < t then Inl (Revert ''threshold > owners'')
               else if unat (vaultCount s) + 1 < 2 ^ 256
               then Inr (vaultCount s,
                      su (sa (su (su s1 (fieldKey pThreshold (vaultCount s)) (ucast t))
                               (fieldKey pOwnerCount (vaultCount s)) (ucast n))
                            (fieldKey pToken (vaultCount s)) tok) vaultCountKey (vaultCount s + 1))
               else Inl SafeMathOverflow)"
  by (simp add: createVault_def Let_def MAX_OWNERS_def SafeMath_add_eq ONE_def
        ucast_u8_u32_u256_direct split: sum.splits)

lemma createVault_loop_all_ok:
  assumes "length cd = unat n" and "distinct cd" and "0 \<notin> set cd"
  shows "\<exists>s1. createVault_loop s v n cd [] 0 = Inr s1
           \<and> (\<forall>j < unat n. s1 (idxKey pOwner v (of_nat j)) = cd ! j)
           \<and> (\<forall>k. (\<forall>j. k \<noteq> idxKey pOwner v j) \<longrightarrow> s1 k = s k)"
proof -
  have nz: "\<forall>m < unat n - unat (0 :: u8). cd ! m \<noteq> 0 \<and> cd ! m \<notin> set []"
    using assms(1,3) by (auto simp: in_set_conv_nth)
  have "\<exists>s1. createVault_loop s v n cd [] 0 = Inr s1"
    by (rule createVault_loop_ok) (use assms nz in simp_all)
  then obtain s1 where run: "createVault_loop s v n cd [] 0 = Inr s1"
    by blast
  note rd = createVault_loop_Inr [OF run, simplified]
  have a: "\<forall>j < unat n. s1 (idxKey pOwner v (of_nat j)) = cd ! j"
  proof (intro allI impI)
    fix j assume j: "j < unat n"
    have n256: "unat n < 256"
      using unsigned_less [of n, where 'a = nat] by simp
    then have uj: "unat (of_nat j :: u8) = j"
      using j by (simp add: unat_of_nat)
    then have "(of_nat j :: u8) < n"
      using j by (simp add: word_less_nat_alt)
    with rd have "s1 (idxKey pOwner v (of_nat j)) = cd ! unat (of_nat j :: u8)"
      by blast
    with uj show "s1 (idxKey pOwner v (of_nat j)) = cd ! j"
      by simp
  qed
  have b: "\<forall>k. (\<forall>j. k \<noteq> idxKey pOwner v j) \<longrightarrow> s1 k = s k"
    using rd by blast
  from run a b show ?thesis by blast
qed



lemma createVault_valid:
  assumes len: "length cd = unat n" and n: "2 \<le> n" "n \<le> 10" and t: "2 \<le> t" "t \<le> n"
    and d: "distinct cd" and z: "0 \<notin> set cd" and c: "unat (vaultCount s) + 1 < 2 ^ 256"
  shows "\<exists>s'. createVault tok n cd t s = Inr (vaultCount s, s')
           \<and> vaultCount s' = vaultCount s + 1
           \<and> threshold_of s' (vaultCount s) = ucast t
           \<and> lu s' (fieldKey pOwnerCount (vaultCount s)) = ucast n
           \<and> getOwnerCount s' (vaultCount s) = n
           \<and> token_of s' (vaultCount s) = tok
           \<and> (\<forall>j < unat n. owner_at s' (vaultCount s) (of_nat j) = cd ! j)"
proof -
  from createVault_loop_all_ok [OF len d z, of s "vaultCount s"] obtain s1 where
    run: "createVault_loop s (vaultCount s) n cd [] 0 = Inr s1"
    and rd: "\<forall>j < unat n. s1 (idxKey pOwner (vaultCount s) (of_nat j)) = cd ! j"
    by blast
  define s' where "s' = su (sa (su (su s1 (fieldKey pThreshold (vaultCount s)) (ucast t))
                               (fieldKey pOwnerCount (vaultCount s)) (ucast n))
                            (fieldKey pToken (vaultCount s)) tok) vaultCountKey (vaultCount s + 1)"
  have res: "createVault tok n cd t s = Inr (vaultCount s, s')"
    using n t c run by (simp add: createVault_eq s'_def not_less [symmetric])
  have "(ucast (ucast n :: u256) :: u8) = n"
    by (rule bit_eqI) (auto simp add: bit_ucast_iff)
  then have views: "vaultCount s' = vaultCount s + 1"
    "threshold_of s' (vaultCount s) = ucast t"
    "lu s' (fieldKey pOwnerCount (vaultCount s)) = ucast n"
    "getOwnerCount s' (vaultCount s) = n"
    "token_of s' (vaultCount s) = tok"
    by (simp_all add: s'_def vaultCount_def view_defs token_of_def getOwnerCount_eq st_defs
          key_simps ptr_defs)
  have own: "\<forall>j < unat n. owner_at s' (vaultCount s) (of_nat j) = cd ! j"
    using rd by (simp add: s'_def owner_at_def st_defs key_simps ptr_defs)
  from res views own show ?thesis by blast
qed

lemma unat_succ_u256: "unat (x :: u256) + 1 < 2 ^ 256 \<Longrightarrow> unat (x + 1) = unat x + 1"
  by (subst unat_add_lem [THEN iffD1]) simp_all





lemma two_owners_valid:
  "length [alice, bob] = unat (2 :: u8)" "distinct [alice, bob]" "0 \<notin> set [alice, bob]"
  by (simp_all add: who_defs)





lemma unat_of_nat_u8: "j < 256 \<Longrightarrow> unat (of_nat j :: u8) = j"
  by (simp add: unat_of_nat)

lemma set_u8_below: "set (map of_nat [0..<unat (c :: u8)]) = {i :: u8. i < c}"
proof -
  have c256: "unat c < 256"
    using unsigned_less [of c, where 'a = nat] by simp
  show ?thesis
  proof (intro set_eqI iffI)
    fix i :: u8
    assume "i \<in> set (map of_nat [0..<unat c])"
    then obtain j where j: "j < unat c" and i: "i = of_nat j"
      by auto
    then have "unat i = j"
      using c256 by (simp add: unat_of_nat_u8)
    with j show "i \<in> {i. i < c}"
      by (simp add: word_less_nat_alt)
  next
    fix i :: u8
    assume "i \<in> {i. i < c}"
    then have "unat i < unat c"
      by (simp add: word_less_nat_alt)
    moreover have "i = of_nat (unat i)"
      by simp
    ultimately have "\<exists>j \<in> set [0..<unat c]. i = of_nat j"
      by (intro bexI [of _ "unat i"]) simp_all
    then show "i \<in> set (map of_nat [0..<unat c])"
      by (simp add: image_iff)
  qed
qed

lemma distinct_u8_below: "distinct (map of_nat [0..<unat (c :: u8)] :: u8 list)"
proof -
  have c256: "unat c < 256"
    using unsigned_less [of c, where 'a = nat] by simp
  have "inj_on (of_nat :: nat \<Rightarrow> u8) (set [0..<unat c])"
  proof (rule inj_onI)
    fix x y assume "x \<in> set [0..<unat c]" "y \<in> set [0..<unat c]"
      and eq: "(of_nat x :: u8) = of_nat y"
    then have "x < 256" "y < 256" using c256 by auto
    then have ux: "unat (of_nat x :: u8) = x" and uy: "unat (of_nat y :: u8) = y"
      by (simp_all add: unat_of_nat_u8)
    have "unat (of_nat x :: u8) = unat (of_nat y :: u8)"
      using eq by (rule arg_cong)
    then show "x = y"
      unfolding ux uy .
  qed
  then show ?thesis
    by (simp add: distinct_map)
qed

lemma card_u8_below: "card {i :: u8. i < c} = unat c"
proof -
  have "card (set (map of_nat [0..<unat c] :: u8 list)) = length (map of_nat [0..<unat c] :: u8 list)"
    by (rule distinct_card [OF distinct_u8_below])
  then have "card {i :: u8. i < c} = length (map of_nat [0..<unat c] :: u8 list)"
    unfolding set_u8_below .
  then show ?thesis
    by simp
qed

lemma flags_set_card: "flags_set s v = card {i. i < getOwnerCount s v \<and> approved s v i}"
proof -
  have "flags_set s v = card ({i. approved s v i} \<inter> set (owner_indices s v))"
    unfolding flags_set_def owner_indices_def
    by (rule distinct_length_filter [OF distinct_u8_below])
  also have "{i. approved s v i} \<inter> set (owner_indices s v) = {i. i < getOwnerCount s v \<and> approved s v i}"
    unfolding owner_indices_def set_u8_below by auto
  finally show ?thesis .
qed

lemma card_flags_le: "card {i :: u8. i < c \<and> P i} \<le> unat c"
proof -
  have "card {i :: u8. i < c \<and> P i} \<le> card {i :: u8. i < c}"
    by (rule card_mono) auto
  then show ?thesis
    by (simp add: card_u8_below)
qed

lemma lo32_small: "unat (v :: u256) < 2 ^ 32 \<Longrightarrow> unat (lo32 v) = unat v"
  by (simp add: lo32_ucast unsigned_ucast_eq take_bit_nat_eq_self)

lemma vault_tally_lo32:
  assumes "lo32 w = lo32 v"
  shows "vault_tally s w = vault_tally s v"
  by (simp add: vault_tally_def view_defs getOwnerCount_eq st_defs assms
        fieldKey_lo32_cong [OF assms] idxKey_lo32_cong [OF assms])

lemma vault_tally_deployed: "vault_tally deployed w"
  by (simp add: vault_tally_def view_defs getOwnerCount_eq st_defs deployed_read ZERO_def)

lemma requireOwnerIdx_bound: "requireOwnerIdx c s v = Inr idx \<Longrightarrow> idx < getOwnerCount s v"
  by (simp add: requireOwnerIdx_def requireOwnerIdx_loop_Inr)

lemma createVault_keeps:
  assumes "createVault tok n cd t s = Inr (vid, s')"
  shows "vid = vaultCount s" "unat (vaultCount s') = unat (vaultCount s) + 1"
    "hasProposal s' w = hasProposal s w" "approvals_of s' w = approvals_of s w"
    "approved s' w i = approved s w i"
    "lo32 w \<noteq> lo32 vid \<Longrightarrow> getOwnerCount s' w = getOwnerCount s w"
proof -
  from assms obtain s1 where
    vid: "vid = vaultCount s" and c: "unat (vaultCount s) + 1 < 2 ^ 256"
    and loop: "createVault_loop s (vaultCount s) n cd [] 0 = Inr s1"
    and s': "s' = su (sa (su (su s1 (fieldKey pThreshold (vaultCount s)) (ucast (ucast t :: u32)))
                       (fieldKey pOwnerCount (vaultCount s)) (ucast (ucast n :: u32)))
                     (fieldKey pToken (vaultCount s)) tok) vaultCountKey (vaultCount s + 1)"
    unfolding createVault_Inr_iff by blast
  have fr: "\<And>k. (\<forall>j. k \<noteq> idxKey pOwner (vaultCount s) j) \<Longrightarrow> s1 k = s k"
    using createVault_loop_Inr [OF loop] by simp
  show "vid = vaultCount s" by (rule vid)
  have "vaultCount s' = vaultCount s + 1"
    by (simp add: s' vaultCount_def st_defs)
  then show "unat (vaultCount s') = unat (vaultCount s) + 1"
    using unat_succ_u256 [OF c] by simp
  show "hasProposal s' w = hasProposal s w" "approvals_of s' w = approvals_of s w"
    "approved s' w i = approved s w i"
    by (simp_all add: s' view_defs st_defs key_simps ptr_defs fr)
  show "getOwnerCount s' w = getOwnerCount s w" if "lo32 w \<noteq> lo32 vid"
    using that by (simp add: s' vid getOwnerCount_eq st_defs key_simps ptr_defs fr)
qed

lemma vault_tally_createVault:
  assumes run: "createVault tok n cd t s = Inr (vid, s')"
    and small: "unat (vaultCount s') \<le> 2 ^ 32"
    and IH: "\<And>w. vault_tally s w"
  shows "vault_tally s' w"
proof -
  note keep = createVault_keeps [OF run]
  have vid32: "unat (lo32 vid) = unat (vaultCount s)"
    using small keep(1,2) by (simp add: lo32_small)
  show ?thesis
  proof (cases "lo32 w = lo32 vid")
    case True
    then have "unat (vaultCount s) \<le> unat (lo32 w)"
      using vid32 by simp
    with IH [of w] have "\<not> hasProposal s w" "\<forall>i. \<not> approved s w i"
      by (simp_all add: vault_tally_def)
    then show ?thesis
      by (simp add: vault_tally_def keep)
  next
    case False
    have a: "unat (vaultCount s') \<le> unat (lo32 w) \<Longrightarrow> unat (vaultCount s) \<le> unat (lo32 w)"
      using keep(2) by simp
    from IH [of w] a show ?thesis
      unfolding vault_tally_def keep(3,4,5) keep(6) [OF False] by blast
  qed
qed

lemma vault_tally_deposit:
  assumes "deposit (inert ok) c v amt s = Inr (r, s')" and "vault_tally s w"
  shows "vault_tally s' w"
proof -
  from assms(1) have s': "s' = su s (fieldKey pBalance v) (balance_of s v + amt)"
    unfolding deposit_Inr_iff inert_Some by auto
  have "vault_tally s' w = vault_tally s w"
    unfolding vault_tally_def view_defs s'
    by (simp add: vaultCount_def getOwnerCount_eq st_defs key_simps ptr_defs)
  with assms(2) show ?thesis by simp
qed

lemma same_slot_not_fresh:
  assumes "v < vaultCount s" and "unat (vaultCount s) \<le> 2 ^ 32"
  shows "\<not> unat (vaultCount s) \<le> unat (lo32 v)"
proof -
  have "unat v < unat (vaultCount s)"
    using assms(1) by (simp add: word_less_nat_alt)
  then show ?thesis
    using assms(2) by (simp add: lo32_small)
qed

lemma vault_tally_propose:
  assumes run: "propose c v to amt s = Inr (r, s')"
    and small: "unat (vaultCount s) \<le> 2 ^ 32"
    and IH: "vault_tally s w"
  shows "vault_tally s' w"
proof -
  from run obtain idx where s': "s' = proposed s v idx to amt"
    and ex: "v < vaultCount s" and own: "requireOwnerIdx c s v = Inr idx"
    unfolding propose_Inr_iff by blast
  have idx: "idx < getOwnerCount s v"
    by (rule requireOwnerIdx_bound [OF own])
  show ?thesis
  proof (cases "lo32 w = lo32 v")
    case True
    have ok: "vault_tally s v" using IH vault_tally_lo32 [OF True] by simp
    have old: "\<not> hasProposal s v \<Longrightarrow> i < getOwnerCount s v \<Longrightarrow> \<not> approved s v i" for i
      using ok by (simp add: vault_tally_def)
    have "{i. i < getOwnerCount s v \<and> approved s' v i} = {idx}"
      using idx old by (auto simp add: s' proposed_flags)
    then have "card {i. i < getOwnerCount s' v \<and> approved s' v i} = 1"
      by (simp add: s' proposed_views)
    then have "vault_tally s' v"
      using same_slot_not_fresh [OF ex small]
      by (simp add: vault_tally_def s' proposed_views)
    then show ?thesis using vault_tally_lo32 [OF True] by simp
  next
    case False
    have "vault_tally s' w = vault_tally s w"
      unfolding vault_tally_def view_defs s' using False
      by (simp add: proposed_def vaultCount_def getOwnerCount_eq st_defs key_simps ptr_defs)
    with IH show ?thesis by simp
  qed
qed

lemma vault_tally_approve:
  assumes run: "approve c v s = Inr (r, s')"
    and small: "unat (vaultCount s) \<le> 2 ^ 32"
    and IH: "vault_tally s w"
  shows "vault_tally s' w"
proof -
  from run obtain idx where
    s': "s' = su (su s (idxKey pApproval v idx) ONE) (fieldKey pPropApprovals v) (approvals_of s v + 1)"
    and ex: "v < vaultCount s" and own: "requireOwnerIdx c s v = Inr idx"
    and hp: "hasProposal s v" and na: "\<not> approved s v idx"
    and nov: "unat (approvals_of s v) + 1 < 2 ^ 256"
    unfolding approve_Inr_iff by blast
  have idx: "idx < getOwnerCount s v"
    by (rule requireOwnerIdx_bound [OF own])
  show ?thesis
  proof (cases "lo32 w = lo32 v")
    case True
    have ok: "vault_tally s v" using IH vault_tally_lo32 [OF True] by simp
    have views: "hasProposal s' v" "getOwnerCount s' v = getOwnerCount s v"
      "vaultCount s' = vaultCount s" "approvals_of s' v = approvals_of s v + 1"
      using hp by (simp_all add: s' view_defs vaultCount_def getOwnerCount_eq st_defs key_simps ptr_defs)
    have set: "{i. i < getOwnerCount s v \<and> approved s' v i}
        = insert idx {i. i < getOwnerCount s v \<and> approved s v i}"
      using idx by (auto simp add: s' approved_def st_defs key_simps ptr_defs ONE_def ZERO_def)
    have card: "card {i. i < getOwnerCount s v \<and> approved s' v i}
        = Suc (card {i. i < getOwnerCount s v \<and> approved s v i})"
      unfolding set using na by simp
    have ap: "unat (approvals_of s v + 1) = Suc (unat (approvals_of s v))"
      using unat_succ_u256 [OF nov] by simp
    have "vault_tally s' v"
      using ok hp same_slot_not_fresh [OF ex small]
      by (simp add: vault_tally_def views card ap)
    then show ?thesis using vault_tally_lo32 [OF True] by simp
  next
    case False
    have "vault_tally s' w = vault_tally s w"
      unfolding vault_tally_def view_defs s' using False
      by (simp add: vaultCount_def getOwnerCount_eq st_defs key_simps ptr_defs)
    with IH show ?thesis by simp
  qed
qed

lemma vault_tally_executeProposal:
  assumes run: "executeProposal (inert ok) c v s = Inr (r, s')"
    and small: "unat (vaultCount s) \<le> 2 ^ 32"
    and IH: "vault_tally s w"
  shows "vault_tally s' w"
proof -
  from run have s': "s' = settled s v" and ex: "v < vaultCount s"
    unfolding executeProposal_Inr_iff inert_Some by simp_all
  show ?thesis
  proof (cases "lo32 w = lo32 v")
    case True
    have "vault_tally s' v"
      using same_slot_not_fresh [OF ex small]
      by (simp add: vault_tally_def s' settled_views settled_flags)
    then show ?thesis using vault_tally_lo32 [OF True] by simp
  next
    case False
    have "vault_tally s' w = vault_tally s w"
      unfolding vault_tally_def view_defs s' using False
      by (simp add: vaultCount_def getOwnerCount_eq st_defs settled_read key_simps ptr_defs)
    with IH show ?thesis by simp
  qed
qed

lemma vaultCount_step:
  "deposit (inert ok) c v amt s = Inr (r, s') \<Longrightarrow> vaultCount s' = vaultCount s"
  "propose c v to amt s = Inr (r, s') \<Longrightarrow> vaultCount s' = vaultCount s"
  "approve c v s = Inr (r, s') \<Longrightarrow> vaultCount s' = vaultCount s"
  "executeProposal (inert ok) c v s = Inr (r, s') \<Longrightarrow> vaultCount s' = vaultCount s"
proof -
  show "vaultCount s' = vaultCount s" if "deposit (inert ok) c v amt s = Inr (r, s')"
    using that unfolding deposit_Inr_iff inert_Some
    by (auto simp add: vaultCount_def st_defs key_simps ptr_defs)
  show "vaultCount s' = vaultCount s" if "propose c v to amt s = Inr (r, s')"
    using that unfolding propose_Inr_iff by (auto simp add: proposed_views)
  show "vaultCount s' = vaultCount s" if "approve c v s = Inr (r, s')"
    using that unfolding approve_Inr_iff
    by (auto simp add: vaultCount_def st_defs key_simps ptr_defs)
  show "vaultCount s' = vaultCount s" if "executeProposal (inert ok) c v s = Inr (r, s')"
    using that unfolding executeProposal_Inr_iff inert_Some by (auto simp add: settled_views)
qed

lemma reachable_vault_tally:
  "reachable s \<Longrightarrow> unat (vaultCount s) \<le> 2 ^ 32 \<Longrightarrow> vault_tally s w"
proof (induction arbitrary: w rule: reachable.induct)
  case r_deployed
  show ?case by (rule vault_tally_deployed)
next
  case (r_createVault s token ownerCount calldata threshold vid s' w)
  have small: "unat (vaultCount s) \<le> 2 ^ 32"
    using createVault_keeps(2) [OF r_createVault.hyps(2)] r_createVault.prems by simp
  show ?case
    by (rule vault_tally_createVault [OF r_createVault.hyps(2) r_createVault.prems])
       (rule r_createVault.IH [OF small])
next
  case (r_deposit s ok c vaultId amount r s' w)
  have "vaultCount s' = vaultCount s"
    by (rule vaultCount_step(1) [OF r_deposit.hyps(2)])
  then have "vault_tally s w"
    using r_deposit.IH r_deposit.prems by simp
  then show ?case
    by (rule vault_tally_deposit [OF r_deposit.hyps(2)])
next
  case (r_propose s c vaultId to amount r s' w)
  have eq: "vaultCount s' = vaultCount s"
    by (rule vaultCount_step(2) [OF r_propose.hyps(2)])
  then have small: "unat (vaultCount s) \<le> 2 ^ 32"
    using r_propose.prems by simp
  then have "vault_tally s w"
    by (rule r_propose.IH)
  then show ?case
    by (rule vault_tally_propose [OF r_propose.hyps(2) small])
next
  case (r_approve s c vaultId r s' w)
  have eq: "vaultCount s' = vaultCount s"
    by (rule vaultCount_step(3) [OF r_approve.hyps(2)])
  then have small: "unat (vaultCount s) \<le> 2 ^ 32"
    using r_approve.prems by simp
  then have "vault_tally s w"
    by (rule r_approve.IH)
  then show ?case
    by (rule vault_tally_approve [OF r_approve.hyps(2) small])
next
  case (r_executeProposal s ok c vaultId r s' w)
  have eq: "vaultCount s' = vaultCount s"
    by (rule vaultCount_step(4) [OF r_executeProposal.hyps(2)])
  then have small: "unat (vaultCount s) \<le> 2 ^ 32"
    using r_executeProposal.prems by simp
  then have "vault_tally s w"
    by (rule r_executeProposal.IH)
  then show ?case
    by (rule vault_tally_executeProposal [OF r_executeProposal.hyps(2) small])
qed

text \<open>
  Claim C3, amended. In every reachable state in which at most 2^32 vaults have been
  created, for every vault with an active proposal: the stored approval count equals the
  number of owner slots whose approval flag is set, it is at least 1, and it is at most
  the owner count.
\<close>

theorem approvals_tally_invariant:
  assumes "reachable s" and "unat (getVaultCount s) \<le> 2 ^ 32" and "hasProposal s v"
  shows "unat (approvals_of s v) = flags_set s v
       \<and> 1 \<le> unat (approvals_of s v)
       \<and> unat (approvals_of s v) \<le> unat (getOwnerCount s v)"
proof -
  have "vault_tally s v"
    using assms(1,2) by (intro reachable_vault_tally) (simp_all add: getVaultCount_def)
  with assms(3) have eq: "unat (approvals_of s v) = card {i. i < getOwnerCount s v \<and> approved s v i}"
    and one: "1 \<le> unat (approvals_of s v)"
    by (simp_all add: vault_tally_def)
  from eq have "unat (approvals_of s v) \<le> unat (getOwnerCount s v)"
    using card_flags_le [of "getOwnerCount s v" "approved s v"] by simp
  with eq one show ?thesis
    by (simp add: flags_set_card)
qed

theorem approvals_tally_invariant_witness:
  "reachable st4 \<and> unat (getVaultCount st4) \<le> 2 ^ 32 \<and> hasProposal st4 0
   \<and> unat (approvals_of st4 0) = flags_set st4 0
   \<and> 1 \<le> unat (approvals_of st4 0)
   \<and> unat (approvals_of st4 0) \<le> unat (getOwnerCount st4 0)"
proof -
  have small: "unat (getVaultCount st4) \<le> 2 ^ 32"
    by (simp add: getVaultCount_def st4_views)
  from approvals_tally_invariant [OF reachable_st4 small st4_views(2)] reachable_st4 small
    st4_views(2)
  show ?thesis by simp
qed

lemma st4_owner_carol: "requireOwnerIdx (as_sender carol) st4 0 = Inr 2"
  by (simp add: requireOwnerIdx_def getOwnerCount_eq as_sender_def requireOwnerIdx_loop_hit
        requireOwnerIdx_loop_miss who_defs hasProposal_def ZERO_def
        st4_eq st3_eq proposed_def st2_eq st1_eq deployed_read st_defs key_simps ptr_defs)

lemma st5_approve:
  "approve (as_sender carol) 0 st4 =
     Inr (True, su (su st4 (idxKey pApproval 0 2) ONE) (fieldKey pPropApprovals 0) 3)"
  by (simp add: approve_eq st4_views st4_owner_carol)

lemma st5_eq: "st5 = su (su st4 (idxKey pApproval 0 2) ONE) (fieldKey pPropApprovals 0) 3"
  unfolding st5_def by (rule commit_Inr) (rule st5_approve)

lemma reachable_st5: "reachable st5"
  by (rule r_approve [OF reachable_st4 st5_approve [folded st5_eq]])

lemma st5_views: "vaultCount st5 = 1" "hasProposal st5 0" "approvals_of st5 0 = 3"
  using st4_views(1,2)
  by (simp_all add: st5_eq view_defs vaultCount_def st_defs key_simps ptr_defs)

lemma pack_Suc: "pack (Suc n) = commit (pack n) (createVault asset 2 [alice, bob] 2 (pack n))"
  by (simp add: pack_def)

lemma pack_inv:
  "n < 2 ^ 255 \<Longrightarrow>
     reachable (pack n) \<and> unat (vaultCount (pack n)) = Suc n
     \<and> hasProposal (pack n) 0 \<and> approvals_of (pack n) 0 = 3"
proof (induction n)
  case 0
  show ?case
    by (simp add: pack_def reachable_st5 st5_views)
next
  case (Suc n)
  then have IH: "reachable (pack n)" "unat (vaultCount (pack n)) = Suc n"
    "hasProposal (pack n) 0" "approvals_of (pack n) 0 = 3"
    by simp_all
  have c: "unat (vaultCount (pack n)) + 1 < 2 ^ 256"
    using Suc.prems IH(2) by simp
  from createVault_valid [OF two_owners_valid(1) _ _ _ _ two_owners_valid(2,3) c, of 2 asset]
  obtain s' where res: "createVault asset 2 [alice, bob] 2 (pack n) = Inr (vaultCount (pack n), s')"
    by auto
  have eq: "pack (Suc n) = s'"
    unfolding pack_Suc by (rule commit_Inr [OF res])
  note keep = createVault_keeps [OF res]
  have "reachable s'"
    by (rule r_createVault [OF IH(1) res])
  moreover have "unat (vaultCount s') = Suc (Suc n)"
    using keep(2) IH(2) by simp
  moreover have "hasProposal s' 0" "approvals_of s' 0 = 3"
    using IH(3,4) by (simp_all add: keep(3,4))
  ultimately show ?case
    using eq by simp
qed

lemma lo32_two_32: "lo32 (2 ^ 32) = lo32 0"
  by (simp add: lo32_ucast)

lemma aliased_ownerCount: "getOwnerCount aliased 0 = 2"
proof -
  have n: "(2 :: nat) ^ 32 - 1 < 2 ^ 255"
    by simp
  from pack_inv [OF n] have cnt: "unat (vaultCount (pack (2 ^ 32 - 1))) = 2 ^ 32"
    by simp
  then have "unat (vaultCount (pack (2 ^ 32 - 1))) = unat (2 ^ 32 :: u256)"
    by simp
  then have vc: "vaultCount (pack (2 ^ 32 - 1)) = 2 ^ 32"
    by (rule unsigned_word_eqI)
  have c: "unat (vaultCount (pack (2 ^ 32 - 1))) + 1 < 2 ^ 256"
    using cnt by simp
  from createVault_valid [OF two_owners_valid(1) _ _ _ _ two_owners_valid(2,3) c, of 2 asset]
  obtain s' where
    res: "createVault asset 2 [alice, bob] 2 (pack (2 ^ 32 - 1)) = Inr (vaultCount (pack (2 ^ 32 - 1)), s')"
    and oc: "getOwnerCount s' (vaultCount (pack (2 ^ 32 - 1))) = 2"
    by auto
  have "pack (Suc (2 ^ 32 - 1)) = s'"
    unfolding pack_Suc by (rule commit_Inr [OF res])
  then have "aliased = s'"
    by (simp add: aliased_def)
  moreover have "getOwnerCount s' 0 = getOwnerCount s' (2 ^ 32)"
    by (simp only: getOwnerCount_eq fieldKey_lo32_cong [OF lo32_two_32])
  ultimately show ?thesis
    using oc vc by simp
qed

text \<open>
  Claim C3 as stated fails past 2^32 vaults. The storage keys hold only the low 32 bits
  of a vault id, so the vault created with id 2^32 is stored in the slots of vault 0: its
  \<^verbatim>\<open>createVault\<close> overwrites the owner count of vault 0 while the proposal of vault 0,
  with its three approvals, stays active. The state is reachable: a vault of three owners,
  a proposal that all three approve, then 2^32 more vaults of two owners.
\<close>

theorem approvals_tally_alias_counterexample:
  "reachable aliased \<and> hasProposal aliased 0
   \<and> unat (approvals_of aliased 0) = 3 \<and> unat (getOwnerCount aliased 0) = 2
   \<and> \<not> unat (approvals_of aliased 0) \<le> unat (getOwnerCount aliased 0)
   \<and> unat (approvals_of aliased 0) \<noteq> flags_set aliased 0"
proof -
  have n: "(2 :: nat) ^ 32 < 2 ^ 255"
    by simp
  from pack_inv [OF n] have r: "reachable aliased" and hp: "hasProposal aliased 0"
    and ap: "approvals_of aliased 0 = 3"
    by (simp_all add: aliased_def)
  have "flags_set aliased 0 \<le> unat (getOwnerCount aliased 0)"
    unfolding flags_set_card by (rule card_flags_le)
  then have "flags_set aliased 0 \<le> 2"
    by (simp add: aliased_ownerCount)
  with r hp ap show ?thesis
    by (simp add: aliased_ownerCount)
qed

end
